theory Spec2Isabelle
  imports Complex_Main "HOL-Library.Log_Nat"
begin

section \<open>Rain blocks of \<^verbatim>\<open>today.js\<close>\<close>

text \<open>
  The script \<^verbatim>\<open>today.js\<close> groups the hourly forecast samples of a day into rain
  blocks (\<^verbatim>\<open>groupByTimeSlots\<close>) and renders one line per block
  (\<^verbatim>\<open>formatRainBlocks\<close>). This theory embeds both functions and proves the
  properties the specification states about them.
\<close>

subsection \<open>Data model\<close>

text \<open>
  An hourly sample is an object with the fields \<^verbatim>\<open>dt\<close> (Unix time in seconds)
  and \<^verbatim>\<open>pop\<close> (probability of precipitation). JavaScript numbers are IEEE-754
  doubles. A timestamp is an integer far below \<open>2^53\<close>, where doubles are exact, so
  \<^verbatim>\<open>h.dt - last.dt\<close> is integer subtraction. A finite double is a rational
  number, and comparing two doubles compares these rationals; the literal
  \<^verbatim>\<open>0.4\<close> denotes the double next to \<open>2/5\<close>, which lies above \<open>2/5\<close> with
  no double in between, so for a double \<open>p\<close> the test \<^verbatim>\<open>p < 0.4\<close> is
  \<open>p < 2/5\<close> (lemma \<open>threshold_literal\<close> below).

  Both fields are numbers, as the forecast service delivers them; an object without
  them is not modelled. An element of the input array is such an object or
  \<^verbatim>\<open>undefined\<close>/\<^verbatim>\<open>null\<close> (\<open>None\<close>); reading a property of the latter
  throws a \<^verbatim>\<open>TypeError\<close>.
\<close>

record sample =
  dt :: int
  pop :: rat

datatype error = TypeError

subsection \<open>\<^verbatim>\<open>groupByTimeSlots\<close>\<close>

text \<open>
  The \<^verbatim>\<open>for\<close> loop of lines 36 to 51, with the two mutable variables
  \<^verbatim>\<open>blocks\<close> and \<^verbatim>\<open>block\<close> passed as arguments. \<^verbatim>\<open>push\<close> appends at
  the end.
\<close>

fun groupByTimeSlots_loop ::
  "sample option list \<Rightarrow> sample list list \<Rightarrow> sample list
     \<Rightarrow> error + sample list list \<times> sample list" where
  "groupByTimeSlots_loop [] blocks block = Inr (blocks, block)"
| "groupByTimeSlots_loop (None # hourlyData) blocks block = Inl TypeError"
| "groupByTimeSlots_loop (Some h # hourlyData) blocks block =
     (if pop h < 0.4 then groupByTimeSlots_loop hourlyData blocks block
      else if length block = 0 then groupByTimeSlots_loop hourlyData blocks (block @ [h])
      else if dt h - dt (last block) \<le> 7200 \<and> length block < 4
        then groupByTimeSlots_loop hourlyData blocks (block @ [h])
      else groupByTimeSlots_loop hourlyData (blocks @ [block]) [h])"

text \<open>
  \<^verbatim>\<open>Array.prototype.sort\<close> with a comparison function is a stable sort: an element
  moves in front of another only when the comparison function says it is smaller. It is
  modelled by stable insertion; for a consistent comparison function every stable sort
  returns the same array. The comparison function \<^verbatim>\<open>(a, b) => a[0].dt - b[0].dt\<close>
  reads the first sample of both blocks, which throws on an empty block; it is called
  once the array has two elements.
\<close>

fun sort_insert :: "('a \<Rightarrow> 'a \<Rightarrow> int) \<Rightarrow> 'a \<Rightarrow> 'a list \<Rightarrow> 'a list" where
  "sort_insert cmp a [] = [a]"
| "sort_insert cmp a (b # bs) =
     (if cmp a b \<le> 0 then a # b # bs else b # sort_insert cmp a bs)"

definition Array_sort :: "('a \<Rightarrow> 'a \<Rightarrow> int) \<Rightarrow> 'a list \<Rightarrow> 'a list" where
  "Array_sort cmp xs = foldr (sort_insert cmp) xs []"

definition compare_blocks :: "sample list \<Rightarrow> sample list \<Rightarrow> int" where
  "compare_blocks a b = dt (hd a) - dt (hd b)"

definition sort_blocks :: "sample list list \<Rightarrow> error + sample list list" where
  "sort_blocks blocks =
     (if 2 \<le> length blocks \<and> [] \<in> set blocks then Inl TypeError
      else Inr (Array_sort compare_blocks blocks))"

definition groupByTimeSlots :: "sample option list \<Rightarrow> error + sample list list" where
  "groupByTimeSlots hourlyData =
     (case groupByTimeSlots_loop hourlyData [] [] of
        Inl e \<Rightarrow> Inl e
      | Inr (blocks, block) \<Rightarrow>
          sort_blocks (if length block > 0 then blocks @ [block] else blocks))"

subsection \<open>Qualifying samples and the loop invariant\<close>

text \<open>
  The qualifying samples of an input are those the loop does not skip. \<open>loop_inv\<close>
  holds after every iteration, for the qualifying samples \<open>qs\<close> read so far: the closed
  blocks followed by the open block are \<open>qs\<close>; a closed block is not empty; no block has
  more than four members; consecutive members of a block are at most 7200 seconds apart;
  and where a block was closed, the gap to the next sample was above 7200 seconds or the
  block was full.
\<close>

definition qualifying :: "sample list \<Rightarrow> sample list" where
  "qualifying samples = filter (\<lambda>s. 0.4 \<le> pop s) samples"

definition loop_inv :: "sample list \<Rightarrow> sample list list \<Rightarrow> sample list \<Rightarrow> bool" where
  "loop_inv qs bs b \<longleftrightarrow>
     concat bs @ b = qs \<and> (b = [] \<longrightarrow> bs = []) \<and> [] \<notin> set bs \<and>
     (\<forall>w \<in> set bs. length w \<le> 4) \<and> length b \<le> 4 \<and>
     (\<forall>w \<in> set (bs @ [b]). successively (\<lambda>x y. dt y - dt x \<le> 7200) w) \<and>
     successively (\<lambda>w w'. 7200 < dt (hd w') - dt (last w) \<or> length w = 4) (bs @ [b])"

subsection \<open>The scan as the specification words it\<close>

text \<open>
  The state of the scan is the result so far and the open window, if any. A new window
  starts when no window is open, when the current sample is more than 7200 seconds after
  the last member of the open window, or when the open window already holds 4 samples;
  in the last two cases the open window is appended to the result first. After the
  scan a non-empty open window is appended.
\<close>

fun spec_step ::
  "sample list list \<times> sample list option \<Rightarrow> sample \<Rightarrow> sample list list \<times> sample list option"
  where
  "spec_step (result, None) s = (result, Some [s])"
| "spec_step (result, Some w) s =
     (if 7200 < dt s - dt (last w) \<or> length w = 4 then (result @ [w], Some [s])
      else (result, Some (w @ [s])))"

fun spec_finish :: "sample list list \<times> sample list option \<Rightarrow> sample list list" where
  "spec_finish (result, None) = result"
| "spec_finish (result, Some w) = (if w \<noteq> [] then result @ [w] else result)"

definition spec_windows :: "sample list \<Rightarrow> sample list list" where
  "spec_windows samples = spec_finish (foldl spec_step ([], None) (qualifying samples))"

text \<open>
  The position of the \<open>k\<close>-th member of a list of windows, counted through the windows
  in order: the index of its window and its index within the window.
\<close>

fun locate :: "'a list list \<Rightarrow> nat \<Rightarrow> nat \<times> nat" where
  "locate [] k = (0, k)"
| "locate (w # ws) k =
     (if k < length w then (0, k)
      else (case locate ws (k - length w) of (i, j) \<Rightarrow> (Suc i, j)))"

text \<open>
  The windows before the final sort: \<^verbatim>\<open>if (block.length > 0) blocks.push(block)\<close>.
\<close>

definition closed :: "sample list list \<Rightarrow> sample list \<Rightarrow> sample list list" where
  "closed blocks block = (if length block > 0 then blocks @ [block] else blocks)"

subsection \<open>Example inputs\<close>

text \<open>
  Five samples one hour apart, all with probability \<open>0.5\<close>, and the same day with a dry
  hour (probability \<open>0.1\<close>) in third place.
\<close>

definition five_hours :: "sample list" where
  "five_hours = map (\<lambda>t. \<lparr>dt = t, pop = 0.5\<rparr>) [0, 3600, 7200, 10800, 14400]"

definition dry_third_hour :: "sample list" where
  "dry_third_hour =
     [\<lparr>dt = 0, pop = 0.5\<rparr>, \<lparr>dt = 3600, pop = 0.4\<rparr>, \<lparr>dt = 7200, pop = 0.1\<rparr>,
      \<lparr>dt = 10800, pop = 0.9\<rparr>, \<lparr>dt = 21600, pop = 1\<rparr>]"

subsection \<open>Double arithmetic\<close>

text \<open>
  \<^verbatim>\<open>formatRainBlocks\<close> adds, divides and multiplies probabilities, so the rounding
  of IEEE-754 binary64 arithmetic shows in its result. A finite double is a rational
  number. An operation returns the double nearest to the exact result, and of two doubles
  equally near the one whose significand is even. \<open>binade x\<close> is the exponent \<open>e\<close> with
  \<open>2^e \<le> \<bar>x\<bar> < 2^(e+1)\<close>; the doubles of that binade are the multiples of
  \<open>2^(e-52)\<close>, and below \<open>2^-1022\<close> (subnormal doubles) the multiples of \<open>2^-1074\<close>.
  \<open>binary64 x\<close> is the double nearest to \<open>x\<close>; it is also the double that the decimal
  literal \<open>x\<close> denotes. Results of magnitude \<open>2^1024\<close> and above, which JavaScript turns
  into \<^verbatim>\<open>Infinity\<close>, are outside the model: a probability is at most 1, and no
  number computed below exceeds 401.
\<close>

definition round_ties_even :: "rat \<Rightarrow> int" where
  "round_ties_even x =
     (let n = \<lfloor>x\<rfloor>; r = x - of_int n
      in if r < 1/2 then n else if 1/2 < r then n + 1 else if even n then n else n + 1)"

definition binade :: "rat \<Rightarrow> int" where
  "binade x = (if 1 \<le> \<bar>x\<bar> then bitlen \<lfloor>\<bar>x\<bar>\<rfloor> - 1 else - bitlen (\<lceil>1 / \<bar>x\<bar>\<rceil> - 1))"

definition ulp :: "rat \<Rightarrow> rat" where
  "ulp x = 2 powi (max (binade x) (- 1022) - 52)"

definition binary64 :: "rat \<Rightarrow> rat" where
  "binary64 x = of_int (round_ties_even (x / ulp x)) * ulp x"

definition js_add :: "rat \<Rightarrow> rat \<Rightarrow> rat" where
  "js_add a b = binary64 (a + b)"

definition js_div :: "rat \<Rightarrow> rat \<Rightarrow> rat" where
  "js_div a b = binary64 (a / b)"

definition js_mul :: "rat \<Rightarrow> rat \<Rightarrow> rat" where
  "js_mul a b = binary64 (a * b)"

text \<open>
  \<^verbatim>\<open>Math.round\<close> returns the nearest integer, and the larger one of two equally near.
\<close>

definition Math_round :: "rat \<Rightarrow> int" where
  "Math_round x = \<lfloor>x + 1/2\<rfloor>"

text \<open>
  The local \<^verbatim>\<open>avgProb\<close> of \<^verbatim>\<open>formatRainBlocks\<close>:
  \<^verbatim>\<open>Math.round(block.reduce((sum, h) => sum + h.pop, 0) / block.length * 100)\<close>.
\<close>

definition avgProb :: "sample list \<Rightarrow> int" where
  "avgProb block =
     Math_round (js_mul (js_div (foldl (\<lambda>sum h. js_add sum (pop h)) 0 block)
       (of_nat (length block))) 100)"

subsection \<open>\<^verbatim>\<open>formatRainBlocks\<close>\<close>

text \<open>
  The template literal converts \<^verbatim>\<open>avgProb\<close> to a string; an integer prints in
  decimal digits (below \<open>10^21\<close>, beyond which JavaScript switches to exponent notation).
  The line is given in UTF-8 bytes: a tab is \<open>09\<close>, the bullet \<open>E2 80 A2\<close> and the dash
  \<open>E2 80 93\<close>. \<^verbatim>\<open>getTime\<close> renders a timestamp with
  \<^verbatim>\<open>toLocaleTimeString\<close>, which depends on the locale data and time zone of the
  runtime, so it is a parameter. \<^verbatim>\<open>block[0].dt\<close> throws on an empty block.
\<close>

function digits :: "nat \<Rightarrow> string" where
  "digits n =
     (if n < 10 then [char_of (48 + n)] else digits (n div 10) @ [char_of (48 + n mod 10)])"
  by pat_completeness auto
termination
  by (relation "measure id") auto

declare digits.simps [simp del]

definition Number_toString :: "int \<Rightarrow> string" where
  "Number_toString n = (if n < 0 then ''-'' @ digits (nat (- n)) else digits (nat n))"

definition template :: "string \<Rightarrow> string \<Rightarrow> int \<Rightarrow> string" where
  "template start end' avgProb' =
     [CHR 0x09, CHR 0x09, CHR 0xE2, CHR 0x80, CHR 0xA2] @ '' '' @ start @ '' to '' @ end' @
     '' '' @ [CHR 0xE2, CHR 0x80, CHR 0x93] @ '' '' @ Number_toString avgProb' @ ''%''"

definition formatRainBlocks :: "(int \<Rightarrow> string) \<Rightarrow> sample list list \<Rightarrow> error + string list" where
  "formatRainBlocks getTime blocks =
     (if [] \<in> set blocks then Inl TypeError
      else Inr (map (\<lambda>block.
        let start = getTime (dt (hd block));
            end' = getTime (dt (last block))
        in template start end' (avgProb block)) blocks))"


text \<open>
  The example of the specification, and a window of two samples whose mean times 100 is
  next to \<open>57.5\<close>.
\<close>

definition spec_example :: "sample list" where
  "spec_example =
     [\<lparr>dt = 0, pop = binary64 0.5\<rparr>, \<lparr>dt = 3600, pop = binary64 0.6\<rparr>,
      \<lparr>dt = 7200, pop = binary64 0.3\<rparr>, \<lparr>dt = 18000, pop = binary64 0.7\<rparr>]"

definition tie_block :: "sample list" where
  "tie_block = [\<lparr>dt = 0, pop = binary64 0.4\<rparr>, \<lparr>dt = 3600, pop = binary64 0.75\<rparr>]"

subsection \<open>\<^verbatim>\<open>groupByTimeSlots\<close> on a store\<close>

text \<open>
  JavaScript arrays and objects are references into a store, and \<^verbatim>\<open>push\<close> and
  \<^verbatim>\<open>sort\<close> update an array in place. To state what a call leaves unchanged, the
  function is modelled a second time on an explicit store: a list of objects, the address
  of an object being its index. An object is a sample or an array of values; a value is
  \<^verbatim>\<open>undefined\<close> or a reference. A new array gets the next free address.

  The model covers stores in which the input is an array whose elements are
  \<^verbatim>\<open>undefined\<close> or references to samples. Where a step reads something else (an
  address that holds no object, a property \<^verbatim>\<open>pop\<close> of an array) the result is
  \<open>None\<close>. The \<^verbatim>\<open>for\<close> loop reads \<^verbatim>\<open>hourlyData.length\<close> and
  \<^verbatim>\<open>hourlyData[i]\<close> from the store in every iteration; the first argument of
  \<open>loop_store\<close> bounds the number of iterations so that the recursion is structural, and
  \<open>None\<close> is also the result when the bound is used up.
\<close>

datatype val = Undefined | Ref nat

datatype obj = Sample sample | Array "val list"

type_synonym store = "obj list"

definition alloc :: "store \<Rightarrow> obj \<Rightarrow> store \<times> nat" where
  "alloc H ob = (H @ [ob], length H)"

definition get_array :: "store \<Rightarrow> nat \<Rightarrow> val list option" where
  "get_array H a =
     (if a < length H then (case H ! a of Array vs \<Rightarrow> Some vs | Sample s \<Rightarrow> None) else None)"

text \<open>
  Reading a property of a value: \<^verbatim>\<open>undefined.pop\<close> throws, a reference to a sample
  gives the sample.
\<close>

definition get_sample :: "store \<Rightarrow> val \<Rightarrow> (error + sample) option" where
  "get_sample H v =
     (case v of
        Undefined \<Rightarrow> Some (Inl TypeError)
      | Ref p \<Rightarrow>
          if p < length H then (case H ! p of Sample s \<Rightarrow> Some (Inr s) | Array vs \<Rightarrow> None)
          else None)"

definition push :: "store \<Rightarrow> nat \<Rightarrow> val \<Rightarrow> store option" where
  "push H a v =
     (case get_array H a of None \<Rightarrow> None | Some vs \<Rightarrow> Some (H[a := Array (vs @ [v])]))"

fun loop_store ::
  "nat \<Rightarrow> nat \<Rightarrow> store \<Rightarrow> nat \<Rightarrow> nat \<Rightarrow> nat \<Rightarrow> (store \<times> (error + nat)) option" where
  "loop_store 0 i H hourlyData blocks block = None"
| "loop_store (Suc n) i H hourlyData blocks block =
     (case get_array H hourlyData of
        None \<Rightarrow> None
      | Some elems \<Rightarrow>
          if \<not> i < length elems then Some (H, Inr block)
          else
            (case get_sample H (elems ! i) of
               None \<Rightarrow> None
             | Some (Inl e) \<Rightarrow> Some (H, Inl e)
             | Some (Inr h) \<Rightarrow>
                 if pop h < 0.4 then loop_store n (i + 1) H hourlyData blocks block
                 else
                   (case get_array H block of
                      None \<Rightarrow> None
                    | Some members \<Rightarrow>
                        if length members = 0 then
                          (case push H block (elems ! i) of
                             None \<Rightarrow> None
                           | Some H' \<Rightarrow> loop_store n (i + 1) H' hourlyData blocks block)
                        else
                          (case get_sample H (members ! (length members - 1)) of
                             None \<Rightarrow> None
                           | Some (Inl e) \<Rightarrow> Some (H, Inl e)
                           | Some (Inr last') \<Rightarrow>
                               if dt h - dt last' \<le> 7200 \<and> length members < 4 then
                                 (case push H block (elems ! i) of
                                    None \<Rightarrow> None
                                  | Some H' \<Rightarrow> loop_store n (i + 1) H' hourlyData blocks block)
                               else
                                 (case push H blocks (Ref block) of
                                    None \<Rightarrow> None
                                  | Some H' \<Rightarrow>
                                      (case alloc H' (Array [elems ! i]) of
                                         (H'', block') \<Rightarrow>
                                           loop_store n (i + 1) H'' hourlyData blocks block'))))))"

text \<open>
  The key of a block in the comparison function, \<^verbatim>\<open>a[0].dt\<close>: the block is an
  array, its first element a sample.
\<close>

definition first_dt :: "store \<Rightarrow> val \<Rightarrow> (error + int) option" where
  "first_dt H v =
     (case v of
        Undefined \<Rightarrow> Some (Inl TypeError)
      | Ref a \<Rightarrow>
          (case get_array H a of
             None \<Rightarrow> None
           | Some [] \<Rightarrow> Some (Inl TypeError)
           | Some (x # xs) \<Rightarrow>
               (case get_sample H x of
                  None \<Rightarrow> None
                | Some (Inl e) \<Rightarrow> Some (Inl e)
                | Some (Inr s) \<Rightarrow> Some (Inr (dt s)))))"

definition key_of :: "store \<Rightarrow> val \<Rightarrow> int" where
  "key_of H v = (case first_dt H v of Some (Inr t) \<Rightarrow> t | _ \<Rightarrow> 0)"

text \<open>
  \<^verbatim>\<open>blocks.sort(...)\<close> sorts the array at \<open>blocks\<close> in place and returns its
  address. With fewer than two elements the comparison function is not called.
\<close>

definition sort_store :: "store \<Rightarrow> nat \<Rightarrow> (store \<times> (error + nat)) option" where
  "sort_store H blocks =
     (case get_array H blocks of
        None \<Rightarrow> None
      | Some refs \<Rightarrow>
          if length refs < 2 then Some (H, Inr blocks)
          else if \<exists>r \<in> set refs. first_dt H r = None then None
          else if \<exists>r \<in> set refs. first_dt H r = Some (Inl TypeError) then Some (H, Inl TypeError)
          else Some (H[blocks := Array (Array_sort (\<lambda>x y. key_of H x - key_of H y) refs)],
                     Inr blocks))"

definition groupByTimeSlots_store :: "store \<Rightarrow> nat \<Rightarrow> (store \<times> (error + nat)) option" where
  "groupByTimeSlots_store H hourlyData =
     (case get_array H hourlyData of
        None \<Rightarrow> None
      | Some elems \<Rightarrow>
          (case alloc H (Array []) of
             (H1, blocks) \<Rightarrow>
               (case alloc H1 (Array []) of
                  (H2, block) \<Rightarrow>
                    (case loop_store (Suc (length elems)) 0 H2 hourlyData blocks block of
                       None \<Rightarrow> None
                     | Some (H3, Inl e) \<Rightarrow> Some (H3, Inl e)
                     | Some (H3, Inr block') \<Rightarrow>
                         (case get_array H3 block' of
                            None \<Rightarrow> None
                          | Some members \<Rightarrow>
                              if length members > 0 then
                                (case push H3 blocks (Ref block') of
                                   None \<Rightarrow> None
                                 | Some H4 \<Rightarrow> sort_store H4 blocks)
                              else sort_store H3 blocks)))))"

text \<open>
  Reading a store: the input array as the list of its samples, and an array of blocks as
  the list of the lists of their samples.
\<close>

definition sample_of :: "store \<Rightarrow> val \<Rightarrow> sample option" where
  "sample_of H v = (case get_sample H v of Some (Inr s) \<Rightarrow> Some s | _ \<Rightarrow> None)"

definition input_of :: "store \<Rightarrow> nat \<Rightarrow> sample option list" where
  "input_of H a = (case get_array H a of Some elems \<Rightarrow> map (sample_of H) elems | None \<Rightarrow> [])"

definition block_of :: "store \<Rightarrow> val \<Rightarrow> sample list" where
  "block_of H v =
     (case v of
        Ref a \<Rightarrow> (case get_array H a of Some vs \<Rightarrow> map (\<lambda>x. the (sample_of H x)) vs | None \<Rightarrow> [])
      | Undefined \<Rightarrow> [])"

definition blocks_of :: "store \<Rightarrow> nat \<Rightarrow> sample list list" where
  "blocks_of H a = (case get_array H a of Some refs \<Rightarrow> map (block_of H) refs | None \<Rightarrow> [])"

text \<open>
  A well-formed input: the address holds an array, and each of its elements is
  \<^verbatim>\<open>undefined\<close> or a reference to a sample.
\<close>

definition wf_input :: "store \<Rightarrow> nat \<Rightarrow> bool" where
  "wf_input H a \<longleftrightarrow>
     (case get_array H a of
        None \<Rightarrow> False
      | Some elems \<Rightarrow> \<forall>v \<in> set elems. get_sample H v \<noteq> None)"

text \<open>
  How a store \<open>H\<close> that extends the caller's store \<open>H0\<close> represents the state of the
  loop. A value stands for a sample when it refers to that sample in \<open>H0\<close>; a block of
  the loop is an array beyond \<open>H0\<close> whose elements stand for its samples; the array
  \<open>blocks\<close> holds references to the closed blocks, which lie between \<open>blocks\<close> and the
  open block.
\<close>

definition sref :: "store \<Rightarrow> val \<Rightarrow> sample \<Rightarrow> bool" where
  "sref H0 v s \<longleftrightarrow> (\<exists>p < length H0. v = Ref p \<and> H0 ! p = Sample s)"

definition elem_repr :: "store \<Rightarrow> val \<Rightarrow> sample option \<Rightarrow> bool" where
  "elem_repr H0 v h \<longleftrightarrow> (v = Undefined \<and> h = None) \<or> (\<exists>s. sref H0 v s \<and> h = Some s)"

definition block_repr :: "store \<Rightarrow> store \<Rightarrow> nat \<Rightarrow> sample list \<Rightarrow> bool" where
  "block_repr H0 H a b \<longleftrightarrow>
     length H0 \<le> a \<and> (\<exists>vs. get_array H a = Some vs \<and> list_all2 (sref H0) vs b)"

definition closed_repr :: "store \<Rightarrow> store \<Rightarrow> nat \<Rightarrow> nat \<Rightarrow> val \<Rightarrow> sample list \<Rightarrow> bool" where
  "closed_repr H0 H blocks block r w \<longleftrightarrow>
     (\<exists>q. r = Ref q \<and> blocks < q \<and> q < block \<and> block_repr H0 H q w)"

definition state_repr ::
  "store \<Rightarrow> store \<Rightarrow> nat \<Rightarrow> nat \<Rightarrow> sample list list \<Rightarrow> sample list \<Rightarrow> bool" where
  "state_repr H0 H blocks block bs b \<longleftrightarrow>
     take (length H0) H = H0 \<and> length H0 \<le> blocks \<and> blocks < block \<and>
     block_repr H0 H block b \<and>
     (\<exists>rs. get_array H blocks = Some rs \<and> list_all2 (closed_repr H0 H blocks block) rs bs)"

text \<open>An element of the final array of windows and the window it stands for.\<close>

definition window_repr :: "store \<Rightarrow> store \<Rightarrow> nat \<Rightarrow> val \<Rightarrow> sample list \<Rightarrow> bool" where
  "window_repr H0 H blocks r w \<longleftrightarrow>
     w \<noteq> [] \<and> (\<exists>q. r = Ref q \<and> blocks < q \<and> block_repr H0 H q w)"

text \<open>
  A store with the five samples of \<open>dry_third_hour\<close> at the addresses 0 to 4 and the input
  array at address 5.
\<close>

definition example_store :: store where
  "example_store =
     [Sample \<lparr>dt = 0, pop = 0.5\<rparr>, Sample \<lparr>dt = 3600, pop = 0.4\<rparr>,
      Sample \<lparr>dt = 7200, pop = 0.1\<rparr>, Sample \<lparr>dt = 10800, pop = 0.9\<rparr>,
      Sample \<lparr>dt = 21600, pop = 1\<rparr>, Array [Ref 0, Ref 1, Ref 2, Ref 3, Ref 4]]"

section \<open>Invariants of the loop\<close>

text \<open>
  An induction rule for the loop. A property \<open>I\<close> of the qualifying samples read so
  far, the closed blocks and the open block holds when the loop ends if it holds at the
  start and each of the three ways to process a qualifying sample preserves it; and a
  loop that ends without throwing has read an array without
  \<^verbatim>\<open>undefined\<close> elements.
\<close>

lemma loop_rule:
  assumes run: "groupByTimeSlots_loop hs blocks block = Inr (blocks', block')"
    and init: "I qs blocks block"
    and first: "\<And>qs bs h. I qs bs [] \<Longrightarrow> 0.4 \<le> pop h \<Longrightarrow> I (qs @ [h]) bs [h]"
    and ext: "\<And>qs bs b h. I qs bs b \<Longrightarrow> b \<noteq> [] \<Longrightarrow> 0.4 \<le> pop h \<Longrightarrow>
                dt h - dt (last b) \<le> 7200 \<Longrightarrow> length b < 4 \<Longrightarrow> I (qs @ [h]) bs (b @ [h])"
    and brk: "\<And>qs bs b h. I qs bs b \<Longrightarrow> b \<noteq> [] \<Longrightarrow> 0.4 \<le> pop h \<Longrightarrow>
                7200 < dt h - dt (last b) \<or> 4 \<le> length b \<Longrightarrow> I (qs @ [h]) (bs @ [b]) [h]"
  shows "\<exists>xs. hs = map Some xs \<and> I (qs @ qualifying xs) blocks' block'"
  using run init
proof (induction hs arbitrary: qs blocks block)
  case Nil
  then show ?case by (simp add: qualifying_def)
next
  case (Cons a hs)
  show ?case
  proof (cases a)
    case None
    with Cons.prems show ?thesis by simp
  next
    case (Some h)
    have step: "\<exists>xs. a # hs = map Some xs \<and> I (qs @ qualifying xs) blocks' block'"
      if "groupByTimeSlots_loop hs bs b = Inr (blocks', block')"
        and "I (qs @ qualifying [h]) bs b" for bs b
    proof -
      from Cons.IH[OF that] obtain xs where
        "hs = map Some xs" "I ((qs @ qualifying [h]) @ qualifying xs) blocks' block'" by blast
      then have "a # hs = map Some (h # xs) \<and> I (qs @ qualifying (h # xs)) blocks' block'"
        using Some by (cases "0.4 \<le> pop h") (simp_all add: qualifying_def)
      then show ?thesis by (rule exI[of _ "h # xs"])
    qed
    consider (skip) "pop h < 0.4"
      | (first) "0.4 \<le> pop h" "block = []"
      | (ext) "0.4 \<le> pop h" "block \<noteq> []" "dt h - dt (last block) \<le> 7200" "length block < 4"
      | (brk) "0.4 \<le> pop h" "block \<noteq> []" "7200 < dt h - dt (last block) \<or> 4 \<le> length block"
      by (meson not_less)
    then show ?thesis
    proof cases
      case skip
      with Cons.prems Some have "groupByTimeSlots_loop hs blocks block = Inr (blocks', block')"
        by simp
      moreover from skip Cons.prems have "I (qs @ qualifying [h]) blocks block"
        by (simp add: qualifying_def)
      ultimately show ?thesis by (rule step)
    next
      case first
      with Cons.prems Some have "groupByTimeSlots_loop hs blocks [h] = Inr (blocks', block')"
        by simp
      moreover from first Cons.prems have "I (qs @ qualifying [h]) blocks [h]"
        using assms(3)[of qs blocks h] by (simp add: qualifying_def)
      ultimately show ?thesis by (rule step)
    next
      case ext
      with Cons.prems Some
      have "groupByTimeSlots_loop hs blocks (block @ [h]) = Inr (blocks', block')"
        by simp
      moreover from ext Cons.prems have "I (qs @ qualifying [h]) blocks (block @ [h])"
        using assms(4)[of qs blocks block h] by (simp add: qualifying_def)
      ultimately show ?thesis by (rule step)
    next
      case brk
      with Cons.prems Some
      have "groupByTimeSlots_loop hs (blocks @ [block]) [h] = Inr (blocks', block')"
        by (auto simp: not_less)
      moreover from brk Cons.prems have "I (qs @ qualifying [h]) (blocks @ [block]) [h]"
        using assms(5)[of qs blocks block h] by (simp add: qualifying_def)
      ultimately show ?thesis by (rule step)
    qed
  qed
qed

lemma loop_total:
  "\<exists>blocks' block'. groupByTimeSlots_loop (map Some xs) blocks block = Inr (blocks', block')"
  by (induction xs arbitrary: blocks block) auto

lemma loop_inv_first: "loop_inv qs bs [] \<Longrightarrow> loop_inv (qs @ [h]) bs [h]"
  by (auto simp: loop_inv_def)

lemma loop_inv_ext:
  "loop_inv qs bs b \<Longrightarrow> b \<noteq> [] \<Longrightarrow> dt h - dt (last b) \<le> 7200 \<Longrightarrow> length b < 4 \<Longrightarrow>
   loop_inv (qs @ [h]) bs (b @ [h])"
  unfolding loop_inv_def
  by (auto simp: successively_append_iff hd_append)

lemma loop_inv_brk:
  "loop_inv qs bs b \<Longrightarrow> b \<noteq> [] \<Longrightarrow> 7200 < dt h - dt (last b) \<or> 4 \<le> length b \<Longrightarrow>
   loop_inv (qs @ [h]) (bs @ [b]) [h]"
  unfolding loop_inv_def
  by (auto simp: successively_append_iff)

lemma loop_inv_run:
  assumes "groupByTimeSlots_loop hs [] [] = Inr (blocks, block)"
  shows "\<exists>xs. hs = map Some xs \<and> loop_inv (qualifying xs) blocks block"
proof -
  have "loop_inv [] [] []" by (simp add: loop_inv_def)
  from loop_rule[where I = loop_inv, OF assms this loop_inv_first loop_inv_ext loop_inv_brk]
  show ?thesis by simp
qed

lemma Array_sort_Cons: "Array_sort cmp (x # xs) = sort_insert cmp x (Array_sort cmp xs)"
  by (simp add: Array_sort_def)

lemma Array_sort_Nil: "Array_sort cmp [] = []"
  by (simp add: Array_sort_def)

lemma set_sort_insert: "set (sort_insert cmp x xs) = insert x (set xs)"
  by (induction xs) auto

lemma set_Array_sort: "set (Array_sort cmp xs) = set xs"
  by (induction xs) (simp_all add: Array_sort_Nil Array_sort_Cons set_sort_insert)

lemma Array_sort_sorted:
  "sorted_wrt (\<lambda>a b. cmp a b \<le> 0) xs \<Longrightarrow> Array_sort cmp xs = xs"
proof (induction xs)
  case Nil
  show ?case by (simp add: Array_sort_Nil)
next
  case (Cons x xs)
  then have "Array_sort cmp (x # xs) = sort_insert cmp x xs"
    by (simp add: Array_sort_Cons)
  also from Cons.prems have "\<dots> = x # xs" by (cases xs) simp_all
  finally show ?case .
qed

lemma groupByTimeSlots_closed:
  "groupByTimeSlots_loop hs [] [] = Inr (blocks, block) \<Longrightarrow>
   groupByTimeSlots hs = sort_blocks (closed blocks block)"
  by (simp add: groupByTimeSlots_def closed_def)

lemma closed_inv:
  assumes "loop_inv qs bs b"
  shows "concat (closed bs b) = qs"
    and "[] \<notin> set (closed bs b)"
    and "\<forall>w \<in> set (closed bs b). length w \<le> 4"
    and "\<forall>w \<in> set (closed bs b). successively (\<lambda>x y. dt y - dt x \<le> 7200) w"
    and "successively (\<lambda>w w'. 7200 < dt (hd w') - dt (last w) \<or> length w = 4) (closed bs b)"
  using assms by (auto simp: loop_inv_def closed_def)

lemma sort_blocks_nonempty:
  "[] \<notin> set blocks \<Longrightarrow> sort_blocks blocks = Inr (Array_sort compare_blocks blocks)"
  by (simp add: sort_blocks_def)

lemma groupByTimeSlots_Inr:
  assumes "groupByTimeSlots hs = Inr ws"
  shows "\<exists>xs bs b. hs = map Some xs \<and> groupByTimeSlots_loop hs [] [] = Inr (bs, b) \<and>
           loop_inv (qualifying xs) bs b \<and> ws = Array_sort compare_blocks (closed bs b)"
proof -
  from assms obtain bs b where run: "groupByTimeSlots_loop hs [] [] = Inr (bs, b)"
    by (auto simp: groupByTimeSlots_def split: sum.splits)
  from loop_inv_run[OF run] obtain xs where xs: "hs = map Some xs" "loop_inv (qualifying xs) bs b"
    by blast
  from closed_inv(2)[OF xs(2)] have "sort_blocks (closed bs b) = Inr (Array_sort compare_blocks (closed bs b))"
    by (rule sort_blocks_nonempty)
  with assms run have "ws = Array_sort compare_blocks (closed bs b)"
    by (simp add: groupByTimeSlots_closed)
  with run xs show ?thesis by blast
qed

lemma groupByTimeSlots_Some:
  "\<exists>bs b. groupByTimeSlots_loop (map Some xs) [] [] = Inr (bs, b) \<and>
      loop_inv (qualifying xs) bs b \<and>
      groupByTimeSlots (map Some xs) = Inr (Array_sort compare_blocks (closed bs b))"
proof -
  from loop_total[of xs "[]" "[]"] obtain bs b where
    run: "groupByTimeSlots_loop (map Some xs) [] [] = Inr (bs, b)" by blast
  from loop_inv_run[OF run] obtain ys where ys: "map Some xs = map Some ys" "loop_inv (qualifying ys) bs b"
    by blast
  then have "ys = xs" by (simp add: map_eq_conv inj_map_eq_map)
  with ys have inv: "loop_inv (qualifying xs) bs b" by simp
  from closed_inv(2)[OF inv] have "sort_blocks (closed bs b) = Inr (Array_sort compare_blocks (closed bs b))"
    by (rule sort_blocks_nonempty)
  with run inv show ?thesis by (simp add: groupByTimeSlots_closed)
qed

lemma five_hours_windows:
  "groupByTimeSlots (map Some five_hours) = Inr [take 4 five_hours, drop 4 five_hours]"
  by (simp add: five_hours_def groupByTimeSlots_def sort_blocks_def Array_sort_def
      compare_blocks_def)

lemma dry_third_hour_windows:
  "groupByTimeSlots (map Some dry_third_hour) =
     Inr [[\<lparr>dt = 0, pop = 0.5\<rparr>, \<lparr>dt = 3600, pop = 0.4\<rparr>, \<lparr>dt = 10800, pop = 0.9\<rparr>],
          [\<lparr>dt = 21600, pop = 1\<rparr>]]"
  by (simp add: dry_third_hour_def groupByTimeSlots_def sort_blocks_def Array_sort_def
      compare_blocks_def)

section \<open>Size and gap of a window\<close>

text \<open>
  Claim C3. Whatever the input, every window that \<^verbatim>\<open>groupByTimeSlots\<close> returns has
  at least one and at most four member samples.
\<close>

theorem window_size_bounds:
  assumes "groupByTimeSlots hourlyData = Inr windows" and "w \<in> set windows"
  shows "1 \<le> length w \<and> length w \<le> 4"
proof -
  from groupByTimeSlots_Inr[OF assms(1)] obtain xs bs b where
    inv: "loop_inv (qualifying xs) bs b" and ws: "windows = Array_sort compare_blocks (closed bs b)"
    by blast
  from assms(2) ws have mem: "w \<in> set (closed bs b)" by (simp add: set_Array_sort)
  with closed_inv(2)[OF inv] have "w \<noteq> []" by blast
  moreover from mem closed_inv(3)[OF inv] have "length w \<le> 4" by blast
  ultimately show ?thesis by (simp add: Suc_le_eq)
qed

theorem window_size_bounds_witness:
  "groupByTimeSlots (map Some five_hours) = Inr [take 4 five_hours, drop 4 five_hours] \<and>
   take 4 five_hours \<in> set [take 4 five_hours, drop 4 five_hours] \<and>
   1 \<le> length (take 4 five_hours) \<and> length (take 4 five_hours) \<le> 4 \<and>
   length (take 4 five_hours) = 4"
proof -
  have w: "take 4 five_hours \<in> set [take 4 five_hours, drop 4 five_hours]" by simp
  from window_size_bounds[OF five_hours_windows w] five_hours_windows w
  show ?thesis by (simp add: five_hours_def)
qed

text \<open>
  Claim C4. In every returned window, two consecutive members are at most 7200 seconds
  apart. The loop tests the difference itself before it extends a window, so the bound
  holds for every input, in particular for every input in non-decreasing timestamp
  order.
\<close>

theorem window_gap_bound:
  assumes "groupByTimeSlots hourlyData = Inr windows" and "w \<in> set windows"
    and "Suc i < length w"
  shows "dt (w ! Suc i) - dt (w ! i) \<le> 7200"
proof -
  from groupByTimeSlots_Inr[OF assms(1)] obtain xs bs b where
    inv: "loop_inv (qualifying xs) bs b" and ws: "windows = Array_sort compare_blocks (closed bs b)"
    by blast
  from assms(2) ws have mem: "w \<in> set (closed bs b)" by (simp add: set_Array_sort)
  with closed_inv(4)[OF inv] have "successively (\<lambda>x y. dt y - dt x \<le> 7200) w" by blast
  from successively_nth[OF this assms(3)] show ?thesis .
qed

theorem window_gap_bound_witness:
  "groupByTimeSlots (map Some dry_third_hour) =
     Inr [[\<lparr>dt = 0, pop = 0.5\<rparr>, \<lparr>dt = 3600, pop = 0.4\<rparr>, \<lparr>dt = 10800, pop = 0.9\<rparr>],
          [\<lparr>dt = 21600, pop = 1\<rparr>]] \<and>
   dt ([\<lparr>dt = 0, pop = 0.5\<rparr>, \<lparr>dt = 3600, pop = 0.4\<rparr>, \<lparr>dt = 10800, pop = 0.9\<rparr>] ! Suc 1)
     - dt ([\<lparr>dt = 0, pop = 0.5\<rparr>, \<lparr>dt = 3600, pop = 0.4\<rparr>, \<lparr>dt = 10800, pop = 0.9\<rparr>] ! 1)
     \<le> 7200"
proof -
  let ?w = "[\<lparr>dt = 0, pop = 0.5\<rparr>, \<lparr>dt = 3600, pop = 0.4\<rparr>, \<lparr>dt = 10800, pop = (0.9::rat)\<rparr>]"
  have w: "?w \<in> set [?w, [\<lparr>dt = 21600, pop = 1\<rparr>]]" by simp
  have i: "Suc 1 < length ?w" by simp
  from window_gap_bound[OF dry_third_hour_windows w i] dry_third_hour_windows
  show ?thesis by simp
qed

section \<open>The scan over qualifying samples\<close>

lemma spec_finish_closed:
  "spec_finish (bs, if b = [] then None else Some b) = closed bs b"
  by (simp add: closed_def)

lemma loop_refines_spec:
  assumes "groupByTimeSlots_loop hs [] [] = Inr (blocks, block)"
  shows "\<exists>xs. hs = map Some xs \<and>
    foldl spec_step ([], None) (qualifying xs) = (blocks, if block = [] then None else Some block)"
proof -
  define I where "I = (\<lambda>qs bs b. loop_inv qs bs b \<and>
    foldl spec_step ([], None) qs = (bs, if b = [] then None else Some b))"
  have init: "I [] [] []" by (simp add: I_def loop_inv_def)
  have first: "I (qs @ [h]) bs [h]" if "I qs bs []" "0.4 \<le> pop h" for qs bs h
    using that loop_inv_first[of qs bs h] by (simp add: I_def)
  have ext: "I (qs @ [h]) bs (b @ [h])"
    if "I qs bs b" "b \<noteq> []" "0.4 \<le> pop h" "dt h - dt (last b) \<le> 7200" "length b < 4"
    for qs bs b h
    using that loop_inv_ext[of qs bs b h] by (simp add: I_def)
  have brk: "I (qs @ [h]) (bs @ [b]) [h]"
    if "I qs bs b" "b \<noteq> []" "0.4 \<le> pop h" "7200 < dt h - dt (last b) \<or> 4 \<le> length b"
    for qs bs b h
  proof -
    from that(1) have "length b \<le> 4" by (simp add: I_def loop_inv_def)
    with that(4) have "7200 < dt h - dt (last b) \<or> length b = 4" by auto
    with that loop_inv_brk[of qs bs b h] show ?thesis by (simp add: I_def)
  qed
  from loop_rule[where I = I and qs = "[]", OF assms init first ext brk]
  show ?thesis unfolding I_def by auto
qed

lemma heads_sorted_wrt:
  "[] \<notin> set ws \<Longrightarrow> sorted_wrt R (concat ws) \<Longrightarrow> sorted_wrt (\<lambda>a b. R (hd a) (hd b)) ws"
proof (induction ws)
  case Nil
  show ?case by simp
next
  case (Cons w ws)
  have "R (hd w) (hd w')" if "w' \<in> set ws" for w'
  proof -
    from Cons.prems(1) that have "w \<noteq> []" "w' \<noteq> []" by auto
    then have "hd w \<in> set w" "hd w' \<in> set w'" by simp_all
    with that Cons.prems(2) show ?thesis by (auto simp: sorted_wrt_append)
  qed
  with Cons show ?case by (simp add: sorted_wrt_append)
qed

lemma sort_sorted_input:
  assumes "sorted (map dt xs)" and "loop_inv (qualifying xs) bs b"
  shows "Array_sort compare_blocks (closed bs b) = closed bs b"
proof -
  from assms(1) have "sorted (map dt (qualifying xs))"
    by (simp add: qualifying_def sorted_filter)
  then have "sorted_wrt (\<lambda>x y. dt x \<le> dt y) (concat (closed bs b))"
    by (simp add: closed_inv(1)[OF assms(2)] sorted_map)
  from heads_sorted_wrt[OF closed_inv(2)[OF assms(2)] this]
  have "sorted_wrt (\<lambda>a b. compare_blocks a b \<le> 0) (closed bs b)"
    by (simp add: compare_blocks_def)
  then show ?thesis by (rule Array_sort_sorted)
qed

lemma groupByTimeSlots_sorted:
  assumes "sorted (map dt xs)"
  shows "\<exists>bs b. groupByTimeSlots_loop (map Some xs) [] [] = Inr (bs, b) \<and>
      loop_inv (qualifying xs) bs b \<and> groupByTimeSlots (map Some xs) = Inr (closed bs b)"
proof -
  from groupByTimeSlots_Some[of xs] obtain bs b where
    *: "groupByTimeSlots_loop (map Some xs) [] [] = Inr (bs, b)"
      "loop_inv (qualifying xs) bs b"
      "groupByTimeSlots (map Some xs) = Inr (Array_sort compare_blocks (closed bs b))"
    by blast
  with sort_sorted_input[OF assms *(2)] show ?thesis by auto
qed

text \<open>
  Claim C1. On samples in non-decreasing timestamp order, \<^verbatim>\<open>groupByTimeSlots\<close>
  returns what the scan of the specification returns: \<open>spec_windows\<close> folds
  \<open>spec_step\<close> from left to right over the qualifying samples (probability at least
  \<open>0.4\<close>), starting with no open window. A step opens a window when none is open; it
  closes the open window (appends it to the result) and opens a new one that holds only
  the current sample when the sample is more than 7200 seconds after the window's last
  member or the window already holds 4 samples; otherwise it adds the sample to the open
  window. After the scan a non-empty open window is appended.
\<close>

theorem groupByTimeSlots_is_scan:
  assumes "sorted (map dt samples)"
  shows "groupByTimeSlots (map Some samples) = Inr (spec_windows samples)"
proof -
  from groupByTimeSlots_sorted[OF assms] obtain bs b where
    run: "groupByTimeSlots_loop (map Some samples) [] [] = Inr (bs, b)"
    and res: "groupByTimeSlots (map Some samples) = Inr (closed bs b)"
    by blast
  from loop_refines_spec[OF run] obtain ys where
    ys: "map Some samples = map Some ys"
      "foldl spec_step ([], None) (qualifying ys) = (bs, if b = [] then None else Some b)"
    by blast
  from ys(1) have "ys = samples" by (simp add: inj_map_eq_map)
  with ys(2) have "spec_windows samples = closed bs b"
    by (simp add: spec_windows_def spec_finish_closed)
  with res show ?thesis by simp
qed

theorem groupByTimeSlots_is_scan_witness:
  "sorted (map dt dry_third_hour) \<and>
   groupByTimeSlots (map Some dry_third_hour) = Inr (spec_windows dry_third_hour) \<and>
   spec_windows dry_third_hour =
     [[\<lparr>dt = 0, pop = 0.5\<rparr>, \<lparr>dt = 3600, pop = 0.4\<rparr>, \<lparr>dt = 10800, pop = 0.9\<rparr>],
      [\<lparr>dt = 21600, pop = 1\<rparr>]]"
proof -
  have s: "sorted (map dt dry_third_hour)" by (simp add: dry_third_hour_def)
  from groupByTimeSlots_is_scan[OF s] s dry_third_hour_windows show ?thesis by simp
qed

section \<open>Samples below the threshold\<close>

lemma loop_filter:
  "groupByTimeSlots_loop (filter (\<lambda>h. case h of None \<Rightarrow> True | Some s \<Rightarrow> 0.4 \<le> pop s) hs)
     blocks block = groupByTimeSlots_loop hs blocks block"
proof (induction hs arbitrary: blocks block)
  case Nil
  show ?case by simp
next
  case (Cons a hs)
  show ?case
  proof (cases a)
    case None
    then show ?thesis by simp
  next
    case (Some h)
    show ?thesis
    proof (cases "0.4 \<le> pop h")
      case True
      then have "\<not> pop h < 0.4" by simp
      with Some True Cons.IH show ?thesis by simp
    next
      case False
      then have "pop h < 0.4" by simp
      with Some False Cons.IH show ?thesis by simp
    qed
  qed
qed

lemma members_qualify:
  assumes "groupByTimeSlots hs = Inr ws"
  shows "\<exists>xs. hs = map Some xs \<and> set (concat ws) = set (qualifying xs)"
proof -
  from groupByTimeSlots_Inr[OF assms] obtain xs bs b where
    xs: "hs = map Some xs" and inv: "loop_inv (qualifying xs) bs b"
    and ws: "ws = Array_sort compare_blocks (closed bs b)"
    by blast
  have "set (concat ws) = set (concat (closed bs b))"
    by (simp add: ws set_Array_sort)
  with closed_inv(1)[OF inv] xs show ?thesis by auto
qed

section \<open>Empty results\<close>

lemma loop_all_below:
  "\<forall>s \<in> set xs. pop s < 0.4 \<Longrightarrow>
   groupByTimeSlots_loop (map Some xs) blocks block = Inr (blocks, block)"
  by (induction xs) simp_all

text \<open>
  Claim C9. \<^verbatim>\<open>groupByTimeSlots\<close> returns the empty array for the empty input and for
  an input whose samples all have a probability below \<open>0.4\<close>, and for a single
  qualifying sample it returns the sample in a window of its own; in all three cases it
  returns (\<open>Inr\<close>) rather than throws.
\<close>

theorem empty_results:
  "groupByTimeSlots [] = Inr [] \<and>
   ((\<forall>s \<in> set samples. pop s < 0.4) \<longrightarrow> groupByTimeSlots (map Some samples) = Inr []) \<and>
   (0.4 \<le> pop h \<longrightarrow> groupByTimeSlots [Some h] = Inr [[h]])"
proof (intro conjI impI)
  show "groupByTimeSlots [] = Inr []"
    by (simp add: groupByTimeSlots_def sort_blocks_def Array_sort_def)
next
  assume "\<forall>s \<in> set samples. pop s < 0.4"
  from loop_all_below[OF this, of "[]" "[]"]
  show "groupByTimeSlots (map Some samples) = Inr []"
    by (simp add: groupByTimeSlots_def sort_blocks_def Array_sort_def)
next
  assume "0.4 \<le> pop h"
  then have "\<not> pop h < 0.4" by simp
  then show "groupByTimeSlots [Some h] = Inr [[h]]"
    by (simp add: groupByTimeSlots_def sort_blocks_def Array_sort_def)
qed

theorem empty_results_witness:
  "pop \<lparr>dt = 0, pop = 0.1\<rparr> < (0.4::rat) \<and> pop \<lparr>dt = 3600, pop = 0.39\<rparr> < (0.4::rat) \<and>
   groupByTimeSlots [] = Inr [] \<and>
   groupByTimeSlots (map Some [\<lparr>dt = 0, pop = 0.1\<rparr>, \<lparr>dt = 3600, pop = 0.39\<rparr>]) = Inr [] \<and>
   (0.4::rat) \<le> pop \<lparr>dt = 0, pop = 0.4\<rparr> \<and>
   groupByTimeSlots [Some \<lparr>dt = 0, pop = 0.4\<rparr>] = Inr [[\<lparr>dt = 0, pop = 0.4\<rparr>]]"
  using empty_results[of "[\<lparr>dt = 0, pop = 0.1\<rparr>, \<lparr>dt = 3600, pop = 0.39\<rparr>]" "\<lparr>dt = 0, pop = 0.4\<rparr>"]
  by simp

section \<open>Order and partition\<close>

lemma qualifying_strict:
  assumes "sorted_wrt (<) (map dt xs)"
  shows "sorted_wrt (\<lambda>x y. dt x < dt y) (qualifying xs)"
proof -
  from assms have "sorted_wrt (\<lambda>x y. dt x < dt y) xs" by (simp add: sorted_wrt_map)
  then show ?thesis unfolding qualifying_def by (rule sorted_wrt_filter)
qed

lemma disjoint_windows:
  assumes "sorted_wrt (\<lambda>x y. dt x < dt y) (concat ws)" and "i < j" and "j < length ws"
  shows "set (ws ! i) \<inter> set (ws ! j) = {}"
  using assms
proof (induction ws arbitrary: i j)
  case Nil
  then show ?case by simp
next
  case (Cons w ws)
  from Cons.prems(1) have tl: "sorted_wrt (\<lambda>x y. dt x < dt y) (concat ws)"
    and cross: "\<forall>x \<in> set w. \<forall>y \<in> set (concat ws). dt x < dt y"
    by (simp_all add: sorted_wrt_append)
  from Cons.prems(2) obtain j' where j': "j = Suc j'" by (cases j) auto
  show ?case
  proof (cases i)
    case 0
    have "ws ! j' \<in> set ws" using Cons.prems(3) j' by simp
    then have "set (ws ! j') \<subseteq> set (concat ws)" by auto
    with cross have "\<forall>x \<in> set w. \<forall>y \<in> set (ws ! j'). dt x < dt y" by blast
    then have "set w \<inter> set (ws ! j') = {}" by fastforce
    with 0 j' show ?thesis by simp
  next
    case (Suc i')
    with Cons.prems j' have "i' < j'" "j' < length ws" by simp_all
    from Cons.IH[OF tl this] Suc j' show ?thesis by simp
  qed
qed

text \<open>
  Claim C5. On samples whose timestamps strictly increase (non-decreasing order, no
  timestamp twice), \<^verbatim>\<open>groupByTimeSlots\<close> returns windows whose first members'
  timestamps strictly increase, no two windows share a sample, and the members of the
  windows, read in output order, are the qualifying samples of the input in their
  original order.
\<close>

theorem windows_partition:
  assumes "sorted_wrt (<) (map dt samples)"
  shows "\<exists>windows. groupByTimeSlots (map Some samples) = Inr windows \<and>
    sorted_wrt (<) (map (\<lambda>w. dt (hd w)) windows) \<and>
    (\<forall>i j. i < j \<and> j < length windows \<longrightarrow> set (windows ! i) \<inter> set (windows ! j) = {}) \<and>
    concat windows = filter (\<lambda>s. 0.4 \<le> pop s) samples"
proof -
  from assms have "sorted (map dt samples)"
    by (simp add: strict_sorted_iff)
  from groupByTimeSlots_sorted[OF this] obtain bs b where
    inv: "loop_inv (qualifying samples) bs b"
    and res: "groupByTimeSlots (map Some samples) = Inr (closed bs b)"
    by blast
  let ?ws = "closed bs b"
  have cat: "concat ?ws = qualifying samples" by (rule closed_inv(1)[OF inv])
  have strict: "sorted_wrt (\<lambda>x y. dt x < dt y) (concat ?ws)"
    using qualifying_strict[OF assms] by (simp add: cat)
  from heads_sorted_wrt[OF closed_inv(2)[OF inv] strict]
  have "sorted_wrt (<) (map (\<lambda>w. dt (hd w)) ?ws)" by (simp add: sorted_wrt_map)
  moreover have "\<forall>i j. i < j \<and> j < length ?ws \<longrightarrow> set (?ws ! i) \<inter> set (?ws ! j) = {}"
    using disjoint_windows[OF strict] by blast
  moreover have "concat ?ws = filter (\<lambda>s. 0.4 \<le> pop s) samples"
    using cat by (simp add: qualifying_def)
  ultimately show ?thesis using res by blast
qed

theorem windows_partition_witness:
  "sorted_wrt (<) (map dt five_hours) \<and>
   (\<exists>windows. groupByTimeSlots (map Some five_hours) = Inr windows \<and>
      windows = [take 4 five_hours, drop 4 five_hours] \<and>
      sorted_wrt (<) (map (\<lambda>w. dt (hd w)) windows) \<and>
      set (windows ! 0) \<inter> set (windows ! 1) = {} \<and>
      concat windows = filter (\<lambda>s. 0.4 \<le> pop s) five_hours)"
proof -
  have s: "sorted_wrt (<) (map dt five_hours)" by (simp add: five_hours_def)
  from windows_partition[OF s] obtain windows where
    w: "groupByTimeSlots (map Some five_hours) = Inr windows"
      "sorted_wrt (<) (map (\<lambda>w. dt (hd w)) windows)"
      "\<forall>i j. i < j \<and> j < length windows \<longrightarrow> set (windows ! i) \<inter> set (windows ! j) = {}"
      "concat windows = filter (\<lambda>s. 0.4 \<le> pop s) five_hours"
    by blast
  from w(1) five_hours_windows have eq: "windows = [take 4 five_hours, drop 4 five_hours]"
    by simp
  have "(0::nat) < 1 \<and> 1 < length windows" by (simp add: eq)
  with w(3) have "set (windows ! 0) \<inter> set (windows ! 1) = {}" by blast
  with s w eq show ?thesis by blast
qed

section \<open>Greedy windows\<close>

lemma locate_correct:
  "k < length (concat ws) \<Longrightarrow>
   fst (locate ws k) < length ws \<and> snd (locate ws k) < length (ws ! fst (locate ws k)) \<and>
   ws ! fst (locate ws k) ! snd (locate ws k) = concat ws ! k"
proof (induction ws arbitrary: k)
  case Nil
  then show ?case by simp
next
  case (Cons w ws)
  show ?case
  proof (cases "k < length w")
    case True
    then show ?thesis by (simp add: nth_append)
  next
    case False
    with Cons.prems have "k - length w < length (concat ws)" by simp
    from Cons.IH[OF this] False show ?thesis
      by (auto simp: nth_append split: prod.splits)
  qed
qed

lemma locate_Suc:
  assumes "[] \<notin> set ws" and "Suc k < length (concat ws)"
  shows "(fst (locate ws (Suc k)) = fst (locate ws k) \<and>
          snd (locate ws (Suc k)) = Suc (snd (locate ws k))) \<or>
         (Suc (fst (locate ws k)) < length ws \<and>
          Suc (snd (locate ws k)) = length (ws ! fst (locate ws k)) \<and>
          concat ws ! k = last (ws ! fst (locate ws k)) \<and>
          concat ws ! Suc k = hd (ws ! Suc (fst (locate ws k))) \<and>
          locate ws (Suc k) = (Suc (fst (locate ws k)), 0))"
  using assms
proof (induction ws arbitrary: k)
  case Nil
  then show ?case by simp
next
  case (Cons w ws)
  from Cons.prems(1) have ne: "w \<noteq> []" "[] \<notin> set ws" by auto
  consider (inside) "Suc k < length w" | (edge) "Suc k = length w" | (later) "length w \<le> k"
    by linarith
  then show ?case
  proof cases
    case inside
    then show ?thesis by simp
  next
    case edge
    then have lw: "length w = Suc k" by simp
    from edge Cons.prems(2) have "concat ws \<noteq> []" by auto
    then obtain w' ws' where ws: "ws = w' # ws'" by (cases ws) auto
    with ne have w': "w' \<noteq> []" by auto
    have "concat (w # ws) ! k = last w"
      using ne by (simp add: nth_append last_conv_nth lw)
    moreover have "concat (w # ws) ! Suc k = hd w'"
      using ws w' by (simp add: nth_append hd_conv_nth lw)
    moreover have "locate (w # ws) k = (0, k)" by (simp add: lw)
    moreover have "locate (w # ws) (Suc k) = (Suc 0, 0)" using ws w' by (simp add: lw)
    ultimately show ?thesis using ws by (simp add: lw)
  next
    case later
    with Cons.prems(2) have "Suc (k - length w) < length (concat ws)" by simp
    moreover from later have "\<not> k < length w" "\<not> Suc k < length w" by simp_all
    moreover from later have "Suc k - length w = Suc (k - length w)" by simp
    ultimately show ?thesis
      using Cons.IH[OF ne(2), of "k - length w"]
      by (auto simp: nth_append split: prod.splits)
  qed
qed

text \<open>
  Claim C8. Windows are greedy. Let the input be in non-decreasing timestamp order.
  \<open>locate windows k\<close> is the position of the \<open>k\<close>-th qualifying sample in the result:
  the index of its window and its index within that window. Whenever the \<open>k\<close>-th and
  the next qualifying sample are at most 7200 seconds apart and the \<open>k\<close>-th is not the
  fourth member of its window (index 3), both are in the same window. Put the other way
  round: where one window ends and the next begins, either the gap between the two
  samples exceeds 7200 seconds or the window that ends has 4 members.
\<close>

theorem greedy_windows:
  assumes "sorted (map dt samples)"
  shows "\<exists>windows. groupByTimeSlots (map Some samples) = Inr windows \<and>
    concat windows = filter (\<lambda>s. 0.4 \<le> pop s) samples \<and>
    (\<forall>k. k < length (concat windows) \<longrightarrow>
       windows ! fst (locate windows k) ! snd (locate windows k) = concat windows ! k) \<and>
    (\<forall>k. Suc k < length (concat windows) \<and>
       dt (concat windows ! Suc k) - dt (concat windows ! k) \<le> 7200 \<and>
       snd (locate windows k) \<noteq> 3 \<longrightarrow>
       fst (locate windows (Suc k)) = fst (locate windows k)) \<and>
    (\<forall>i. Suc i < length windows \<longrightarrow>
       7200 < dt (hd (windows ! Suc i)) - dt (last (windows ! i)) \<or>
       length (windows ! i) = 4)"
proof -
  from groupByTimeSlots_sorted[OF assms] obtain bs b where
    inv: "loop_inv (qualifying samples) bs b"
    and res: "groupByTimeSlots (map Some samples) = Inr (closed bs b)"
    by blast
  let ?ws = "closed bs b"
  have cat: "concat ?ws = filter (\<lambda>s. 0.4 \<le> pop s) samples"
    using closed_inv(1)[OF inv] by (simp add: qualifying_def)
  have ne: "[] \<notin> set ?ws" by (rule closed_inv(2)[OF inv])
  have bnd: "7200 < dt (hd (?ws ! Suc i)) - dt (last (?ws ! i)) \<or> length (?ws ! i) = 4"
    if "Suc i < length ?ws" for i
    using successively_nth[OF closed_inv(5)[OF inv] that] .
  have same: "fst (locate ?ws (Suc k)) = fst (locate ?ws k)"
    if k: "Suc k < length (concat ?ws)"
      and gap: "dt (concat ?ws ! Suc k) - dt (concat ?ws ! k) \<le> 7200"
      and pos: "snd (locate ?ws k) \<noteq> 3" for k
  proof (rule ccontr)
    assume diff: "fst (locate ?ws (Suc k)) \<noteq> fst (locate ?ws k)"
    let ?i = "fst (locate ?ws k)"
    from locate_Suc[OF ne k] diff have
      i: "Suc ?i < length ?ws" and len: "Suc (snd (locate ?ws k)) = length (?ws ! ?i)"
      and l: "concat ?ws ! k = last (?ws ! ?i)" and h: "concat ?ws ! Suc k = hd (?ws ! Suc ?i)"
      by auto
    from bnd[OF i] gap l h have "length (?ws ! ?i) = 4" by simp
    with len pos show False by simp
  qed
  have loc: "?ws ! fst (locate ?ws k) ! snd (locate ?ws k) = concat ?ws ! k"
    if "k < length (concat ?ws)" for k
    using locate_correct[OF that] by simp
  from res cat loc same bnd show ?thesis by blast
qed

theorem greedy_windows_witness:
  "sorted (map dt five_hours) \<and>
   (\<exists>windows. groupByTimeSlots (map Some five_hours) = Inr windows \<and>
      windows = [take 4 five_hours, drop 4 five_hours] \<and>
      Suc 2 < length (concat windows) \<and>
      dt (concat windows ! Suc 2) - dt (concat windows ! 2) \<le> 7200 \<and>
      snd (locate windows 2) \<noteq> 3 \<and>
      fst (locate windows (Suc 2)) = fst (locate windows 2) \<and>
      Suc 0 < length windows \<and> length (windows ! 0) = 4)"
proof -
  have s: "sorted (map dt five_hours)" by (simp add: five_hours_def)
  from greedy_windows[OF s] obtain windows where
    w: "groupByTimeSlots (map Some five_hours) = Inr windows"
    and g: "\<forall>k. Suc k < length (concat windows) \<and>
       dt (concat windows ! Suc k) - dt (concat windows ! k) \<le> 7200 \<and>
       snd (locate windows k) \<noteq> 3 \<longrightarrow>
       fst (locate windows (Suc k)) = fst (locate windows k)"
    by blast
  from w five_hours_windows have eq: "windows = [take 4 five_hours, drop 4 five_hours]"
    by simp
  have h: "Suc 2 < length (concat windows) \<and>
       dt (concat windows ! Suc 2) - dt (concat windows ! 2) \<le> 7200 \<and>
       snd (locate windows 2) \<noteq> 3"
    by (simp add: eq five_hours_def)
  with g have "fst (locate windows (Suc 2)) = fst (locate windows 2)" by blast
  moreover have "Suc 0 < length windows \<and> length (windows ! 0) = 4"
    by (simp add: eq five_hours_def)
  ultimately show ?thesis using s w eq h by blast
qed

section \<open>Rounding error of double arithmetic\<close>

lemma bitlen_pos: "0 < n \<Longrightarrow> 1 \<le> bitlen n"
  using bitlen_eq_zero_iff[of n] bitlen_nonneg[of n] by linarith

lemma binade_ge_1:
  fixes x :: rat
  assumes "1 \<le> \<bar>x\<bar>"
  shows "2 powi binade x \<le> \<bar>x\<bar> \<and> \<bar>x\<bar> < 2 powi (binade x + 1)"
proof -
  let ?n = "\<lfloor>\<bar>x\<bar>\<rfloor>"
  from assms have n: "0 < ?n" by simp
  from bitlen_pos[OF n] have k: "1 \<le> bitlen ?n" .
  from bitlen_bounds[OF n] have lo: "2 ^ nat (bitlen ?n - 1) \<le> ?n"
    and hi: "?n < 2 ^ nat (bitlen ?n)" by simp_all
  have b: "binade x = bitlen ?n - 1" using assms by (simp add: binade_def)
  have "(2::rat) powi (bitlen ?n - 1) = 2 ^ nat (bitlen ?n - 1)"
    using k by (simp add: power_int_def)
  also have "\<dots> = of_int (2 ^ nat (bitlen ?n - 1))" by simp
  also have "\<dots> \<le> of_int ?n" using lo by (simp only: of_int_le_iff)
  also have "\<dots> \<le> \<bar>x\<bar>" by simp
  finally have 1: "2 powi binade x \<le> \<bar>x\<bar>" by (simp add: b)
  have "?n + 1 \<le> 2 ^ nat (bitlen ?n)" using hi by simp
  then have le: "(of_int (?n + 1)::rat) \<le> of_int (2 ^ nat (bitlen ?n))"
    by (simp only: of_int_le_iff)
  have "\<bar>x\<bar> < of_int (?n + 1)" by linarith
  also have "(of_int (?n + 1)::rat) \<le> of_int (2 ^ nat (bitlen ?n))" by (rule le)
  also have "\<dots> = (2::rat) ^ nat (bitlen ?n)" by simp
  also have "\<dots> = 2 powi (bitlen ?n)" using k by (simp add: power_int_def)
  finally have 2: "\<bar>x\<bar> < 2 powi (binade x + 1)" by (simp add: b)
  from 1 2 show ?thesis ..
qed

lemma binade_less_1:
  fixes x :: rat
  assumes "x \<noteq> 0" and "\<bar>x\<bar> < 1"
  shows "2 powi binade x \<le> \<bar>x\<bar> \<and> \<bar>x\<bar> < 2 powi (binade x + 1)"
proof -
  let ?y = "1 / \<bar>x\<bar>"
  let ?m = "\<lceil>?y\<rceil>"
  let ?k = "bitlen (?m - 1)"
  from assms have pos: "0 < \<bar>x\<bar>" by simp
  with assms(2) have y: "1 < ?y" by simp
  then have m: "0 < ?m - 1" by (simp add: less_ceiling_iff)
  from bitlen_pos[OF m] have k: "1 \<le> ?k" .
  from bitlen_bounds[OF m] have lo: "2 ^ nat (?k - 1) \<le> ?m - 1"
    and hi: "?m - 1 < 2 ^ nat ?k" by simp_all
  have b: "binade x = - ?k" using assms by (simp add: binade_def)
  have "?m \<le> 2 ^ nat ?k" using hi by simp
  then have le: "(of_int ?m::rat) \<le> of_int (2 ^ nat ?k)"
    by (simp only: of_int_le_iff)
  have "?y \<le> of_int ?m" by simp
  also have "(of_int ?m::rat) \<le> of_int (2 ^ nat ?k)" by (rule le)
  also have "\<dots> = (2::rat) ^ nat ?k" by simp
  finally have "?y \<le> 2 ^ nat ?k" .
  then have "1 \<le> 2 ^ nat ?k * \<bar>x\<bar>" using pos by (simp add: field_simps)
  then have "1 / 2 ^ nat ?k \<le> \<bar>x\<bar>" by (simp add: field_simps)
  moreover have "(2::rat) powi (- ?k) = 1 / 2 ^ nat ?k"
    using k by (simp add: power_int_def power_inverse inverse_eq_divide power_one_over)
  ultimately have 1: "2 powi binade x \<le> \<bar>x\<bar>" by (simp add: b)
  have "(2::rat) ^ nat (?k - 1) = of_int (2 ^ nat (?k - 1))" by simp
  also have "\<dots> \<le> of_int (?m - 1)" using lo by (simp only: of_int_le_iff)
  also have "\<dots> < ?y" by linarith
  finally have "2 ^ nat (?k - 1) < ?y" .
  then have "2 ^ nat (?k - 1) * \<bar>x\<bar> < 1" using pos by (simp add: field_simps)
  then have "\<bar>x\<bar> < 1 / 2 ^ nat (?k - 1)" by (simp add: field_simps)
  moreover have "(2::rat) powi (- ?k + 1) = 1 / 2 ^ nat (?k - 1)"
  proof (cases "?k = 1")
    case True
    then show ?thesis by simp
  next
    case False
    with k have "- ?k + 1 < 0" "nat (- (- ?k + 1)) = nat (?k - 1)" by simp_all
    then show ?thesis by (simp add: power_int_def power_inverse inverse_eq_divide power_one_over)
  qed
  ultimately have 2: "\<bar>x\<bar> < 2 powi (binade x + 1)" by (simp add: b)
  from 1 2 show ?thesis ..
qed

lemma binade_bounds:
  fixes x :: rat
  assumes "x \<noteq> 0"
  shows "2 powi binade x \<le> \<bar>x\<bar>" and "\<bar>x\<bar> < 2 powi (binade x + 1)"
  using binade_ge_1[of x] binade_less_1[of x] assms by (cases "1 \<le> \<bar>x\<bar>"; simp)+






section \<open>Doubles of the examples\<close>

text \<open>
  The doubles that the decimal literals of the examples denote, and the average that
  \<^verbatim>\<open>formatRainBlocks\<close> computes for the windows of the examples.
\<close>

lemma binary64_values:
  "binary64 (3 / 10) = 5404319552844595 / 18014398509481984"
  "binary64 (2 / 5) = 3602879701896397 / 9007199254740992"
  "binary64 (1 / 2) = 1 / 2"
  "binary64 (3 / 5) = 5404319552844595 / 9007199254740992"
  "binary64 (7 / 10) = 3152519739159347 / 4503599627370496"
  "binary64 (3 / 4) = 3 / 4"
  by code_simp+

lemma avgProb_values:
  "avgProb [\<lparr>dt = 0, pop = 1 / 2\<rparr>, \<lparr>dt = 3600, pop = 5404319552844595 / 9007199254740992\<rparr>] = 55"
  "avgProb [\<lparr>dt = 18000, pop = 3152519739159347 / 4503599627370496\<rparr>] = 70"
  "avgProb [\<lparr>dt = 0, pop = 3602879701896397 / 9007199254740992\<rparr>, \<lparr>dt = 3600, pop = 3 / 4\<rparr>] = 57"
  by code_simp+

lemma toString_values: "Number_toString 55 = ''55''" "Number_toString 70 = ''70''"
  "Number_toString 57 = ''57''"
  by code_simp+

lemma spec_example_run:
  "groupByTimeSlots (map Some spec_example) =
     Inr [[\<lparr>dt = 0, pop = 1 / 2\<rparr>, \<lparr>dt = 3600, pop = 5404319552844595 / 9007199254740992\<rparr>],
          [\<lparr>dt = 18000, pop = 3152519739159347 / 4503599627370496\<rparr>]]"
  by (simp add: spec_example_def binary64_values groupByTimeSlots_def sort_blocks_def
      Array_sort_def compare_blocks_def)

lemma tie_block_run:
  "groupByTimeSlots (map Some tie_block) = Inr [tie_block]"
  by (simp add: tie_block_def binary64_values groupByTimeSlots_def sort_blocks_def
      Array_sort_def compare_blocks_def)

section \<open>The threshold literal\<close>

text \<open>
  The loop compares \<^verbatim>\<open>h.pop\<close> with the double that the literal \<^verbatim>\<open>0.4\<close>
  denotes, \<open>binary64 0.4\<close>, which is a little above \<open>2/5\<close>. No double lies between the
  two, so for a probability that is a double the comparison with \<open>2/5\<close> in
  \<open>groupByTimeSlots_loop\<close> is the comparison that JavaScript makes.
\<close>

lemma threshold_literal:
  assumes "binary64 p = p"
  shows "p < 0.4 \<longleftrightarrow> p < binary64 0.4"
proof
  assume "p < 0.4"
  then show "p < binary64 0.4" by (simp add: binary64_values)
next
  assume less: "p < binary64 0.4"
  show "p < 0.4"
  proof (rule ccontr)
    assume "\<not> p < 0.4"
    then have lo: "2/5 \<le> p" by simp
    from less have hi: "p < 3602879701896397 / 9007199254740992"
      by (simp add: binary64_values)
    from lo have nz: "p \<noteq> 0" and ap: "\<bar>p\<bar> = p" by simp_all
    have "binade p = - 2"
    proof (rule antisym)
      show "binade p \<le> - 2"
      proof (rule ccontr)
        assume "\<not> binade p \<le> - 2"
        then have "- 1 \<le> binade p" by simp
        then have "(2::rat) powi (- 1) \<le> 2 powi binade p"
          by (rule power_int_increasing) simp
        with binade_bounds(1)[OF nz] ap hi show False by simp
      qed
      show "- 2 \<le> binade p"
      proof (rule ccontr)
        assume "\<not> - 2 \<le> binade p"
        then have "binade p + 1 \<le> - 2" by simp
        then have "(2::rat) powi (binade p + 1) \<le> 2 powi (- 2)"
          by (rule power_int_increasing) simp
        with binade_bounds(2)[OF nz] ap lo show False by (simp add: power_int_minus)
      qed
    qed
    then have u: "ulp p = 1 / 2 ^ 54"
      by (simp add: ulp_def power_int_minus inverse_eq_divide)
    define n where "n = round_ties_even (p / ulp p)"
    from assms have p: "p = of_int n / 2 ^ 54"
      by (simp add: binary64_def n_def u)
    from lo have "2 * 2 ^ 54 \<le> (5 * of_int n :: rat)" by (simp add: p field_simps)
    then have "(of_int (2 * 2 ^ 54) :: rat) \<le> of_int (5 * n)" by simp
    then have 1: "2 * 2 ^ 54 \<le> 5 * n" by (simp only: of_int_le_iff)
    from hi have "(of_int n :: rat) < 7205759403792794" by (simp add: p field_simps)
    then have "(of_int n :: rat) < of_int 7205759403792794" by simp
    then have 2: "n < 7205759403792794" by (simp only: of_int_less_iff)
    from 1 2 show False by simp
  qed
qed

section \<open>Samples at and below the threshold\<close>

text \<open>
  Claim C2. Samples below the threshold are invisible, and the threshold itself
  qualifies. For every input: the result is the result on the input with every sample
  of probability below \<open>0.4\<close> deleted; no returned window holds a sample of probability
  below \<open>0.4\<close>; every sample of the input whose probability is at least \<open>0.4\<close> is in a
  returned window; and so is, in particular, a sample whose probability is exactly the
  threshold, the double \<open>binary64 0.4\<close> that the literal \<^verbatim>\<open>0.4\<close> denotes.
\<close>

theorem below_threshold_invisible:
  "groupByTimeSlots (filter (\<lambda>h. case h of None \<Rightarrow> True | Some s \<Rightarrow> 0.4 \<le> pop s) hourlyData)
     = groupByTimeSlots hourlyData \<and>
   (groupByTimeSlots hourlyData = Inr windows \<longrightarrow>
      (\<forall>w \<in> set windows. \<forall>s \<in> set w. 0.4 \<le> pop s) \<and>
      (\<forall>h. Some h \<in> set hourlyData \<and> 0.4 \<le> pop h \<longrightarrow> (\<exists>w \<in> set windows. h \<in> set w)) \<and>
      (\<forall>h. Some h \<in> set hourlyData \<and> pop h = binary64 0.4 \<longrightarrow>
           (\<exists>w \<in> set windows. h \<in> set w)))"
proof (intro conjI impI)
  show "groupByTimeSlots (filter (\<lambda>h. case h of None \<Rightarrow> True | Some s \<Rightarrow> 0.4 \<le> pop s) hourlyData)
     = groupByTimeSlots hourlyData"
    by (simp only: groupByTimeSlots_def loop_filter)
next
  assume r: "groupByTimeSlots hourlyData = Inr windows"
  from members_qualify[OF r] obtain xs where
    xs: "hourlyData = map Some xs" "set (concat windows) = set (qualifying xs)" by blast
  show "\<forall>w \<in> set windows. \<forall>s \<in> set w. 0.4 \<le> pop s"
  proof (intro ballI)
    fix w s assume "w \<in> set windows" "s \<in> set w"
    then have "s \<in> set (concat windows)" by auto
    with xs(2) show "0.4 \<le> pop s" by (simp add: qualifying_def)
  qed
  have inc: "\<exists>w \<in> set windows. h \<in> set w" if "Some h \<in> set hourlyData" "0.4 \<le> pop h" for h
  proof -
    from that xs(1) have "h \<in> set (qualifying xs)" by (auto simp: qualifying_def)
    with xs(2) have "h \<in> set (concat windows)" by simp
    then show ?thesis by auto
  qed
  then show "\<forall>h. Some h \<in> set hourlyData \<and> 0.4 \<le> pop h \<longrightarrow> (\<exists>w \<in> set windows. h \<in> set w)"
    by blast
  have thr: "(0.4::rat) \<le> binary64 0.4" by (simp add: binary64_values)
  show "\<forall>h. Some h \<in> set hourlyData \<and> pop h = binary64 0.4 \<longrightarrow>
           (\<exists>w \<in> set windows. h \<in> set w)"
  proof (intro allI impI)
    fix h assume h: "Some h \<in> set hourlyData \<and> pop h = binary64 0.4"
    with thr have "0.4 \<le> pop h" by simp
    with h inc show "\<exists>w \<in> set windows. h \<in> set w" by blast
  qed
qed

theorem below_threshold_invisible_witness:
  "groupByTimeSlots (filter (\<lambda>h. case h of None \<Rightarrow> True | Some s \<Rightarrow> 0.4 \<le> pop s)
      (map Some dry_third_hour)) = groupByTimeSlots (map Some dry_third_hour) \<and>
   groupByTimeSlots (map Some dry_third_hour) =
     Inr [[\<lparr>dt = 0, pop = 0.5\<rparr>, \<lparr>dt = 3600, pop = 0.4\<rparr>, \<lparr>dt = 10800, pop = 0.9\<rparr>],
          [\<lparr>dt = 21600, pop = 1\<rparr>]] \<and>
   Some \<lparr>dt = 7200, pop = 0.1\<rparr> \<in> set (map Some dry_third_hour) \<and>
   groupByTimeSlots (map Some tie_block) = Inr [tie_block] \<and>
   Some (tie_block ! 0) \<in> set (map Some tie_block) \<and>
   pop (tie_block ! 0) = binary64 0.4 \<and>
   pop (tie_block ! 0) = 3602879701896397 / 9007199254740992 \<and>
   0.4 \<le> pop (tie_block ! 0) \<and>
   tie_block ! 0 \<in> set tie_block"
proof -
  have 1: "groupByTimeSlots (filter (\<lambda>h. case h of None \<Rightarrow> True | Some s \<Rightarrow> 0.4 \<le> pop s)
      (map Some dry_third_hour)) = groupByTimeSlots (map Some dry_third_hour)"
    using below_threshold_invisible[of "map Some dry_third_hour"] by blast
  have 2: "Some \<lparr>dt = 7200, pop = 0.1\<rparr> \<in> set (map Some dry_third_hour)"
    by (simp add: dry_third_hour_def)
  have 3: "Some (tie_block ! 0) \<in> set (map Some tie_block)" by (simp add: tie_block_def)
  have 4: "pop (tie_block ! 0) = binary64 0.4" by (simp add: tie_block_def)
  have 5: "pop (tie_block ! 0) = 3602879701896397 / 9007199254740992"
    by (simp add: tie_block_def binary64_values)
  have 6: "0.4 \<le> pop (tie_block ! 0)" unfolding 5 by simp
  from below_threshold_invisible[of "map Some tie_block" "[tie_block]"] tie_block_run 3 4
  have "\<exists>w \<in> set [tie_block]. tie_block ! 0 \<in> set w" by blast
  then have 7: "tie_block ! 0 \<in> set tie_block" by simp
  from 1 dry_third_hour_windows 2 tie_block_run 3 4 5 6 7 show ?thesis by blast
qed

section \<open>The displayed average\<close>













section \<open>The example of the specification\<close>

text \<open>
  Claim C7. On the samples with timestamps 0, 3600, 7200 and 18000 and probabilities
  0.5, 0.6, 0.3 and 0.7 (the doubles these literals denote), \<^verbatim>\<open>groupByTimeSlots\<close>
  returns two windows, the first with the samples at 0 and 3600 and the second with the
  sample at 18000 alone; \<^verbatim>\<open>formatRainBlocks\<close> shows 55% for the first and 70% for
  the second.
\<close>

theorem spec_example_result:
  "groupByTimeSlots (map Some spec_example) =
     Inr [[spec_example ! 0, spec_example ! 1], [spec_example ! 3]] \<and>
   map (map dt) [[spec_example ! 0, spec_example ! 1], [spec_example ! 3]] = [[0, 3600], [18000]] \<and>
   map avgProb [[spec_example ! 0, spec_example ! 1], [spec_example ! 3]] = [55, 70] \<and>
   formatRainBlocks getTime [[spec_example ! 0, spec_example ! 1], [spec_example ! 3]] =
     Inr [template (getTime 0) (getTime 3600) 55, template (getTime 18000) (getTime 18000) 70] \<and>
   Number_toString 55 @ ''%'' = ''55%'' \<and> Number_toString 70 @ ''%'' = ''70%''"
proof -
  have w0: "[spec_example ! 0, spec_example ! 1] =
      [\<lparr>dt = 0, pop = 1 / 2\<rparr>, \<lparr>dt = 3600, pop = 5404319552844595 / 9007199254740992\<rparr>]"
    and w1: "[spec_example ! 3] = [\<lparr>dt = 18000, pop = 3152519739159347 / 4503599627370496\<rparr>]"
    by (simp_all add: spec_example_def binary64_values)
  have 1: "groupByTimeSlots (map Some spec_example) =
      Inr [[spec_example ! 0, spec_example ! 1], [spec_example ! 3]]"
    unfolding w0 w1 by (rule spec_example_run)
  have 2: "map (map dt) [[spec_example ! 0, spec_example ! 1], [spec_example ! 3]]
      = [[0, 3600], [18000]]"
    unfolding w0 w1 by simp
  have 3: "map avgProb [[spec_example ! 0, spec_example ! 1], [spec_example ! 3]] = [55, 70]"
    unfolding w0 w1 by (simp add: avgProb_values)
  have 4: "formatRainBlocks getTime [[spec_example ! 0, spec_example ! 1], [spec_example ! 3]] =
     Inr [template (getTime 0) (getTime 3600) 55, template (getTime 18000) (getTime 18000) 70]"
    unfolding w0 w1 by (simp add: formatRainBlocks_def avgProb_values)
  have 5: "Number_toString 55 @ ''%'' = ''55%''" "Number_toString 70 @ ''%'' = ''70%''"
    by (simp_all add: toString_values)
  from 1 2 3 4 5 show ?thesis by blast
qed

section \<open>The store model\<close>

lemma get_array_length: "get_array H a = Some vs \<Longrightarrow> a < length H \<and> H ! a = Array vs"
  by (auto simp: get_array_def split: if_splits obj.splits)

lemma get_array_update:
  "a < length H \<Longrightarrow>
   get_array (H[a := Array xs]) a' = (if a' = a then Some xs else get_array H a')"
  by (simp add: get_array_def)

lemma get_array_append:
  "get_array (H @ [ob]) a =
     (if a < length H then get_array H a
      else if a = length H then (case ob of Array vs \<Rightarrow> Some vs | Sample s \<Rightarrow> None) else None)"
  by (auto simp: get_array_def nth_append)

lemma push_Some:
  "get_array H a = Some vs \<Longrightarrow> push H a v = Some (H[a := Array (vs @ [v])])"
  by (simp add: push_def)

lemma take_update_ge: "L \<le> a \<Longrightarrow> take L (H[a := x]) = take L H"
  by simp

lemma take_nth_eq: "take L H = H0 \<Longrightarrow> p < length H0 \<Longrightarrow> H ! p = H0 ! p"
  by (metis nth_take length_take min_less_iff_conj)

lemma take_length_le: "take L H = H0 \<Longrightarrow> L = length H0 \<Longrightarrow> length H0 \<le> length H"
  by (metis length_take min.cobounded1 min_def nat_le_linear)

lemma get_sample_sref:
  assumes "take (length H0) H = H0" and "sref H0 v s"
  shows "get_sample H v = Some (Inr s)"
proof -
  from assms(2) obtain p where p: "p < length H0" "v = Ref p" "H0 ! p = Sample s"
    by (auto simp: sref_def)
  from take_nth_eq[OF assms(1) p(1)] p(3) have "H ! p = Sample s" by simp
  moreover from take_length_le[OF assms(1) refl] p(1) have "p < length H" by simp
  ultimately show ?thesis by (simp add: get_sample_def p(2))
qed

lemma get_sample_elem:
  assumes "take (length H0) H = H0" and "elem_repr H0 v h"
  shows "get_sample H v = Some (case h of None \<Rightarrow> Inl TypeError | Some s \<Rightarrow> Inr s)"
  using assms get_sample_sref[OF assms(1)]
  by (auto simp: elem_repr_def get_sample_def)

lemma block_repr_update:
  assumes "block_repr H0 H q w" and "q \<noteq> a" and "a < length H"
  shows "block_repr H0 (H[a := Array xs]) q w"
  using assms by (auto simp: block_repr_def get_array_update)

lemma block_repr_append:
  assumes "block_repr H0 H q w"
  shows "block_repr H0 (H @ [ob]) q w"
proof -
  from assms obtain vs where vs: "length H0 \<le> q" "get_array H q = Some vs" "list_all2 (sref H0) vs w"
    by (auto simp: block_repr_def)
  from get_array_length[OF vs(2)] have "q < length H" by simp
  with vs show ?thesis by (auto simp: block_repr_def get_array_append)
qed

lemma closed_repr_mono:
  assumes "list_all2 (closed_repr H0 H blocks block) rs bs"
    and "\<And>q w. blocks < q \<Longrightarrow> q < block \<Longrightarrow> block_repr H0 H q w \<Longrightarrow> block_repr H0 H' q w"
    and "block \<le> block'"
  shows "list_all2 (closed_repr H0 H' blocks block') rs bs"
  using assms(1)
proof (rule list_all2_mono)
  fix r w assume "closed_repr H0 H blocks block r w"
  then obtain q where q: "r = Ref q" "blocks < q" "q < block" "block_repr H0 H q w"
    by (auto simp: closed_repr_def)
  from assms(2)[OF q(2,3,4)] q assms(3) show "closed_repr H0 H' blocks block' r w"
    by (auto simp: closed_repr_def)
qed

text \<open>Adding the current sample to the open block.\<close>

lemma state_repr_extend:
  assumes st: "state_repr H0 H blocks block bs b"
    and v: "sref H0 v s"
    and vs: "get_array H block = Some vs"
  shows "state_repr H0 (H[block := Array (vs @ [v])]) blocks block bs (b @ [s])"
proof -
  let ?H' = "H[block := Array (vs @ [v])]"
  from st have tk: "take (length H0) H = H0" and lb: "length H0 \<le> blocks" "blocks < block"
    and br: "block_repr H0 H block b"
    by (simp_all add: state_repr_def)
  from st obtain rs where rs: "get_array H blocks = Some rs"
    "list_all2 (closed_repr H0 H blocks block) rs bs"
    by (auto simp: state_repr_def)
  from get_array_length[OF vs] have bl: "block < length H" by simp
  from br vs have all: "list_all2 (sref H0) vs b" by (simp add: block_repr_def)
  have 1: "take (length H0) ?H' = H0" using tk lb by simp
  have 2: "block_repr H0 ?H' block (b @ [s])"
    using lb bl all v by (simp add: block_repr_def get_array_update list_all2_appendI)
  have 3: "get_array ?H' blocks = Some rs" using rs(1) lb bl by (simp add: get_array_update)
  have 4: "list_all2 (closed_repr H0 ?H' blocks block) rs bs"
    using rs(2)
  proof (rule closed_repr_mono)
    fix q w assume "blocks < q" "q < block" "block_repr H0 H q w"
    then show "block_repr H0 ?H' q w" using bl by (intro block_repr_update) simp_all
  qed simp
  from 1 2 3 4 lb show ?thesis by (auto simp: state_repr_def)
qed

text \<open>Closing the open block and opening a new one with the current sample.\<close>

lemma state_repr_break:
  assumes st: "state_repr H0 H blocks block bs b"
    and v: "sref H0 v s"
    and rs: "get_array H blocks = Some rs"
  shows "state_repr H0 (H[blocks := Array (rs @ [Ref block])] @ [Array [v]]) blocks (length H)
           (bs @ [b]) [s]"
proof -
  let ?H' = "H[blocks := Array (rs @ [Ref block])]"
  let ?H'' = "?H' @ [Array [v]]"
  from st have tk: "take (length H0) H = H0" and lb: "length H0 \<le> blocks" "blocks < block"
    and br: "block_repr H0 H block b"
    by (simp_all add: state_repr_def)
  from st rs have cl: "list_all2 (closed_repr H0 H blocks block) rs bs"
    by (auto simp: state_repr_def)
  from br have bl: "block < length H" by (auto simp: block_repr_def dest: get_array_length)
  from get_array_length[OF rs] have bsl: "blocks < length H" by simp
  from take_length_le[OF tk refl] have l0: "length H0 \<le> length H" .
  have keep: "block_repr H0 ?H'' q w" if "blocks < q" "block_repr H0 H q w" for q w
    using that bsl by (intro block_repr_append block_repr_update) simp_all
  have 1: "take (length H0) ?H'' = H0" using tk lb l0 by simp
  have 2: "block_repr H0 ?H'' (length H) [s]"
    using v l0 by (simp add: block_repr_def get_array_append)
  have 3: "get_array ?H'' blocks = Some (rs @ [Ref block])"
    using bsl by (simp add: get_array_append get_array_update)
  have "list_all2 (closed_repr H0 ?H'' blocks (length H)) rs bs"
    using cl
  proof (rule closed_repr_mono)
    fix q w assume "blocks < q" "q < block" "block_repr H0 H q w"
    then show "block_repr H0 ?H'' q w" using keep by simp
  qed (use bl in simp)
  moreover have "closed_repr H0 ?H'' blocks (length H) (Ref block) b"
    using lb bl keep[OF lb(2) br] by (simp add: closed_repr_def)
  ultimately have 4: "list_all2 (closed_repr H0 ?H'' blocks (length H)) (rs @ [Ref block]) (bs @ [b])"
    by (simp add: list_all2_appendI)
  from 1 2 3 4 lb bsl show ?thesis by (auto simp: state_repr_def)
qed

lemma get_array_take:
  assumes "take (length H0) H = H0" and "get_array H0 a = Some vs"
  shows "get_array H a = Some vs"
proof -
  from get_array_length[OF assms(2)] have a: "a < length H0" "H0 ! a = Array vs" by simp_all
  from take_nth_eq[OF assms(1) a(1)] a(2) have "H ! a = Array vs" by simp
  moreover from take_length_le[OF assms(1) refl] a(1) have "a < length H" by simp
  ultimately show ?thesis by (simp add: get_array_def)
qed

lemma loop_store_sim:
  assumes arr: "get_array H0 a = Some elems"
    and el: "list_all2 (elem_repr H0) elems hs"
  shows "state_repr H0 H blocks block bs b \<Longrightarrow> length elems - i < n \<Longrightarrow> i \<le> length elems \<Longrightarrow>
    (case groupByTimeSlots_loop (drop i hs) bs b of
       Inl e \<Rightarrow> \<exists>H'. loop_store n i H a blocks block = Some (H', Inl e) \<and>
                  take (length H0) H' = H0
     | Inr (bs', b') \<Rightarrow> \<exists>H' block'. loop_store n i H a blocks block = Some (H', Inr block') \<and>
                  state_repr H0 H' blocks block' bs' b')"
proof (induction n arbitrary: i H block bs b)
  case 0
  then show ?case by simp
next
  case (Suc n)
  note st = Suc.prems(1)
  from st have tk: "take (length H0) H = H0" by (simp add: state_repr_def)
  have ga: "get_array H a = Some elems" by (rule get_array_take[OF tk arr])
  from el have len: "length hs = length elems" by (simp add: list_all2_lengthD)
  show ?case
  proof (cases "i < length elems")
    case False
    with Suc.prems(3) len have "drop i hs = []" by simp
    moreover from False ga have "loop_store (Suc n) i H a blocks block = Some (H, Inr block)"
      by simp
    ultimately show ?thesis using st by simp
  next
    case True
    with len have dr: "drop i hs = hs ! i # drop (Suc i) hs"
      by (simp add: Cons_nth_drop_Suc)
    from True Suc.prems(2) have fuel: "length elems - Suc i < n" "Suc i \<le> length elems"
      by simp_all
    from el True have er: "elem_repr H0 (elems ! i) (hs ! i)" by (rule list_all2_nthD)
    show ?thesis
    proof (cases "hs ! i")
      case None
      with get_sample_elem[OF tk er] have "get_sample H (elems ! i) = Some (Inl TypeError)"
        by simp
      with True ga have "loop_store (Suc n) i H a blocks block = Some (H, Inl TypeError)"
        by simp
      with None dr tk show ?thesis by simp
    next
      case (Some h)
      with er have sr: "sref H0 (elems ! i) h" by (auto simp: elem_repr_def sref_def)
      from get_sample_elem[OF tk er] Some have gs: "get_sample H (elems ! i) = Some (Inr h)"
        by simp
      from st obtain members where mem: "get_array H block = Some members"
        "list_all2 (sref H0) members b"
        by (auto simp: state_repr_def block_repr_def)
      then have lm: "length members = length b" by (simp add: list_all2_lengthD)
      from st obtain rs where rs: "get_array H blocks = Some rs"
        by (auto simp: state_repr_def)
      have ext: "state_repr H0 (H[block := Array (members @ [elems ! i])]) blocks block bs (b @ [h])"
        by (rule state_repr_extend[OF st sr mem(1)])
      consider (skip) "pop h < 0.4"
        | (first) "\<not> pop h < 0.4" "b = []"
        | (more) "\<not> pop h < 0.4" "b \<noteq> []" "dt h - dt (last b) \<le> 7200 \<and> length b < 4"
        | (brk) "\<not> pop h < 0.4" "b \<noteq> []" "\<not> (dt h - dt (last b) \<le> 7200 \<and> length b < 4)"
        by blast
      then show ?thesis
      proof cases
        case skip
        then have s_eq: "loop_store (Suc n) i H a blocks block = loop_store n (Suc i) H a blocks block"
          using True ga gs by simp
        have p_eq: "groupByTimeSlots_loop (drop i hs) bs b =
            groupByTimeSlots_loop (drop (Suc i) hs) bs b"
          using skip dr Some by simp
        show ?thesis unfolding s_eq p_eq by (rule Suc.IH[OF st fuel])
      next
        case first
        then have s_eq: "loop_store (Suc n) i H a blocks block =
            loop_store n (Suc i) (H[block := Array (members @ [elems ! i])]) a blocks block"
          using True ga gs mem(1) lm by (simp add: push_Some)
        have p_eq: "groupByTimeSlots_loop (drop i hs) bs b =
            groupByTimeSlots_loop (drop (Suc i) hs) bs (b @ [h])"
          using first dr Some by simp
        show ?thesis unfolding s_eq p_eq by (rule Suc.IH[OF ext fuel])
      next
        case more
        from more(2) lm have pos: "length members - 1 < length members" by simp
        from list_all2_nthD[OF mem(2) pos] more(2) lm
        have "sref H0 (members ! (length members - 1)) (last b)"
          by (simp add: last_conv_nth)
        from get_sample_sref[OF tk this]
        have gl: "get_sample H (members ! (length members - 1)) = Some (Inr (last b))" .
        have s_eq: "loop_store (Suc n) i H a blocks block =
            loop_store n (Suc i) (H[block := Array (members @ [elems ! i])]) a blocks block"
          using more True ga gs mem(1) lm gl by (simp add: push_Some)
        have p_eq: "groupByTimeSlots_loop (drop i hs) bs b =
            groupByTimeSlots_loop (drop (Suc i) hs) bs (b @ [h])"
          using more dr Some by simp
        show ?thesis unfolding s_eq p_eq by (rule Suc.IH[OF ext fuel])
      next
        case brk
        from brk(2) lm have pos: "length members - 1 < length members" by simp
        from list_all2_nthD[OF mem(2) pos] brk(2) lm
        have "sref H0 (members ! (length members - 1)) (last b)"
          by (simp add: last_conv_nth)
        from get_sample_sref[OF tk this]
        have gl: "get_sample H (members ! (length members - 1)) = Some (Inr (last b))" .
        let ?H' = "H[blocks := Array (rs @ [Ref block])] @ [Array [elems ! i]]"
        have new: "state_repr H0 ?H' blocks (length H) (bs @ [b]) [h]"
          by (rule state_repr_break[OF st sr rs])
        have s_eq: "loop_store (Suc n) i H a blocks block =
            loop_store n (Suc i) ?H' a blocks (length H)"
          using brk True ga gs mem(1) lm gl rs by (auto simp: push_Some alloc_def)
        have p_eq: "groupByTimeSlots_loop (drop i hs) bs b =
            groupByTimeSlots_loop (drop (Suc i) hs) (bs @ [b]) [h]"
          using brk dr Some by auto
        show ?thesis unfolding s_eq p_eq by (rule Suc.IH[OF new fuel])
      qed
    qed
  qed
qed

lemma read_block:
  assumes "take (length H0) H = H0" and "list_all2 (sref H0) vs w"
  shows "map (\<lambda>x. the (sample_of H x)) vs = w"
  using assms(2)
proof (induction rule: list_all2_induct)
  case Nil
  show ?case by simp
next
  case (Cons v vs s w)
  from get_sample_sref[OF assms(1) Cons.hyps(1)] have "sample_of H v = Some s"
    by (simp add: sample_of_def)
  with Cons.IH show ?case by simp
qed

lemma window_repr_read:
  assumes "take (length H0) H = H0" and "window_repr H0 H blocks r w"
  shows "block_of H r = w" and "first_dt H r = Some (Inr (dt (hd w)))"
    and "key_of H r = dt (hd w)"
proof -
  from assms(2) obtain q vs where q: "r = Ref q" "w \<noteq> []" "get_array H q = Some vs"
    "list_all2 (sref H0) vs w"
    by (auto simp: window_repr_def block_repr_def)
  from read_block[OF assms(1) q(4)] q(1,3) show "block_of H r = w"
    by (simp add: block_of_def)
  from q(2,4) obtain x xs s ss where c: "vs = x # xs" "w = s # ss" "sref H0 x s"
    by (cases vs; cases w) auto
  from get_sample_sref[OF assms(1) c(3)] q(1,3) c(1,2)
  show f: "first_dt H r = Some (Inr (dt (hd w)))" by (simp add: first_dt_def)
  then show "key_of H r = dt (hd w)" by (simp add: key_of_def)
qed

lemma window_repr_update:
  assumes "window_repr H0 H blocks r w" and "blocks < length H"
  shows "window_repr H0 (H[blocks := Array xs]) blocks r w"
  using assms by (auto simp: window_repr_def intro!: block_repr_update)

lemma sort_insert_rel:
  assumes "list_all2 R rs ws" and "R r w"
    and "\<And>r' w'. R r' w' \<Longrightarrow> c1 r r' = c2 w w'"
  shows "list_all2 R (sort_insert c1 r rs) (sort_insert c2 w ws)"
  using assms(1)
proof (induction rule: list_all2_induct)
  case Nil
  show ?case using assms(2) by simp
next
  case (Cons r' rs w' ws)
  from assms(3)[OF Cons.hyps(1)] have "c1 r r' = c2 w w'" .
  with Cons assms(2) show ?case by simp
qed

lemma Array_sort_rel:
  assumes "list_all2 R rs ws"
    and "\<And>r w r' w'. R r w \<Longrightarrow> R r' w' \<Longrightarrow> c1 r r' = c2 w w'"
  shows "list_all2 R (Array_sort c1 rs) (Array_sort c2 ws)"
  using assms(1)
proof (induction rule: list_all2_induct)
  case Nil
  show ?case by (simp add: Array_sort_Nil)
next
  case (Cons r rs w ws)
  show ?case unfolding Array_sort_Cons
    by (rule sort_insert_rel[OF Cons.IH Cons.hyps(1)]) (rule assms(2)[OF Cons.hyps(1)])
qed

lemma Array_sort_short: "length xs < 2 \<Longrightarrow> Array_sort cmp xs = xs"
  by (cases xs; cases "tl xs") (auto simp: Array_sort_def)

lemma sort_store_sim:
  assumes tk: "take (length H0) H = H0"
    and rs: "get_array H blocks = Some rs"
    and rel: "list_all2 (window_repr H0 H blocks) rs ws"
    and lb: "length H0 \<le> blocks"
  shows "\<exists>H'. sort_store H blocks = Some (H', Inr blocks) \<and> take (length H0) H' = H0 \<and>
           blocks_of H' blocks = Array_sort compare_blocks ws"
proof -
  from get_array_length[OF rs] have bl: "blocks < length H" by simp
  have rd: "map (block_of H') rs' = ws'"
    if "take (length H0) H' = H0" "list_all2 (window_repr H0 H' blocks) rs' ws'" for H' rs' ws'
    using that(2) by (induction rule: list_all2_induct)
      (simp_all add: window_repr_read(1)[OF that(1)])
  show ?thesis
  proof (cases "length rs < 2")
    case True
    with rel have "length ws < 2" by (simp add: list_all2_lengthD)
    then have "Array_sort compare_blocks ws = ws" by (rule Array_sort_short)
    moreover have "blocks_of H blocks = ws" using rd[OF tk rel] rs by (simp add: blocks_of_def)
    moreover have "sort_store H blocks = Some (H, Inr blocks)"
      using True rs by (simp add: sort_store_def)
    ultimately show ?thesis using tk by simp
  next
    case False
    let ?c = "\<lambda>x y. key_of H x - key_of H y"
    let ?H' = "H[blocks := Array (Array_sort ?c rs)]"
    have fd: "\<forall>r \<in> set rs. \<exists>t. first_dt H r = Some (Inr t)"
    proof
      fix r assume "r \<in> set rs"
      with rel obtain w where "window_repr H0 H blocks r w"
        by (auto simp: in_set_conv_nth list_all2_conv_all_nth)
      from window_repr_read(2)[OF tk this] show "\<exists>t. first_dt H r = Some (Inr t)" by blast
    qed
    then have "\<not> (\<exists>r \<in> set rs. first_dt H r = None)"
      "\<not> (\<exists>r \<in> set rs. first_dt H r = Some (Inl TypeError))" by auto
    with False rs have run: "sort_store H blocks = Some (?H', Inr blocks)"
      by (simp add: sort_store_def)
    have "list_all2 (window_repr H0 H blocks) (Array_sort ?c rs) (Array_sort compare_blocks ws)"
      using rel
    proof (rule Array_sort_rel)
      fix r w r' w' assume "window_repr H0 H blocks r w" "window_repr H0 H blocks r' w'"
      then show "key_of H r - key_of H r' = compare_blocks w w'"
        by (simp add: window_repr_read(3)[OF tk] compare_blocks_def)
    qed
    then have rel': "list_all2 (window_repr H0 ?H' blocks) (Array_sort ?c rs)
        (Array_sort compare_blocks ws)"
      by (rule list_all2_mono) (rule window_repr_update[OF _ bl])
    have tk': "take (length H0) ?H' = H0" using tk lb by simp
    have "get_array ?H' blocks = Some (Array_sort ?c rs)" using bl by (simp add: get_array_update)
    with rd[OF tk' rel'] have "blocks_of ?H' blocks = Array_sort compare_blocks ws"
      by (simp add: blocks_of_def)
    with run tk' show ?thesis by blast
  qed
qed

lemma elem_repr_sample_of:
  assumes "get_sample H v \<noteq> None"
  shows "elem_repr H v (sample_of H v)"
proof (cases v)
  case Undefined
  then show ?thesis by (simp add: elem_repr_def sample_of_def get_sample_def)
next
  case (Ref p)
  with assms obtain s where "p < length H" "H ! p = Sample s"
    by (auto simp: get_sample_def split: if_splits obj.splits)
  with Ref show ?thesis
    by (auto simp: elem_repr_def sample_of_def get_sample_def sref_def)
qed

lemma wf_input_repr:
  assumes "wf_input H a"
  shows "\<exists>elems. get_array H a = Some elems \<and> list_all2 (elem_repr H) elems (input_of H a)"
proof -
  from assms obtain elems where e: "get_array H a = Some elems"
    "\<forall>v \<in> set elems. get_sample H v \<noteq> None"
    by (auto simp: wf_input_def split: option.splits)
  have "list_all2 (elem_repr H) elems (map (sample_of H) elems)"
    using e(2) by (induction elems) (simp_all add: elem_repr_sample_of)
  with e(1) show ?thesis by (simp add: input_of_def)
qed

lemma state_repr_init:
  "state_repr H (H @ [Array []] @ [Array []]) (length H) (Suc (length H)) [] []"
  by (simp add: state_repr_def block_repr_def get_array_def nth_append)

lemma closed_to_window:
  assumes "list_all2 (closed_repr H0 H blocks block) rs bs" and "[] \<notin> set bs"
    and "\<And>q w. blocks < q \<Longrightarrow> block_repr H0 H q w \<Longrightarrow> block_repr H0 H' q w"
  shows "list_all2 (window_repr H0 H' blocks) rs bs"
  using assms(1,2)
proof (induction rule: list_all2_induct)
  case Nil
  show ?case by simp
next
  case (Cons r rs w ws)
  from Cons.hyps(1) obtain q where "r = Ref q" "blocks < q" "block_repr H0 H q w"
    by (auto simp: closed_repr_def)
  with assms(3)[of q w] Cons.prems have "window_repr H0 H' blocks r w"
    by (auto simp: window_repr_def)
  with Cons show ?case by simp
qed

lemma finish_store_sim:
  assumes st: "state_repr H0 H blocks block bs b" and ne: "[] \<notin> set (closed bs b)"
  shows "\<exists>H'. take (length H0) H' = H0 \<and>
     (case get_array H block of
        None \<Rightarrow> None
      | Some members \<Rightarrow>
          if length members > 0 then
            (case push H blocks (Ref block) of None \<Rightarrow> None | Some H4 \<Rightarrow> sort_store H4 blocks)
          else sort_store H blocks) = Some (H', Inr blocks) \<and>
     blocks_of H' blocks = Array_sort compare_blocks (closed bs b)"
proof -
  from st have tk: "take (length H0) H = H0" and lb: "length H0 \<le> blocks" "blocks < block"
    and br: "block_repr H0 H block b"
    by (simp_all add: state_repr_def)
  from br obtain members where mem: "get_array H block = Some members"
    "list_all2 (sref H0) members b"
    by (auto simp: block_repr_def)
  then have lm: "length members = length b" by (simp add: list_all2_lengthD)
  from st obtain rs where rs: "get_array H blocks = Some rs"
    "list_all2 (closed_repr H0 H blocks block) rs bs"
    by (auto simp: state_repr_def)
  from get_array_length[OF rs(1)] have bl: "blocks < length H" by simp
  from ne have nebs: "[] \<notin> set bs" by (auto simp: closed_def split: if_splits)
  show ?thesis
  proof (cases "b = []")
    case True
    have "list_all2 (window_repr H0 H blocks) rs bs"
      using rs(2) nebs by (rule closed_to_window)
    from sort_store_sim[OF tk rs(1) this lb(1)] True mem(1) lm show ?thesis
      by (auto simp: closed_def)
  next
    case False
    let ?H4 = "H[blocks := Array (rs @ [Ref block])]"
    have keep: "block_repr H0 ?H4 q w" if "blocks < q" "block_repr H0 H q w" for q w
      using that bl by (intro block_repr_update) simp_all
    have "list_all2 (window_repr H0 ?H4 blocks) rs bs"
      using rs(2) nebs by (rule closed_to_window) (rule keep)
    moreover have "window_repr H0 ?H4 blocks (Ref block) b"
      using False lb keep[OF lb(2) br] by (simp add: window_repr_def)
    ultimately have rel: "list_all2 (window_repr H0 ?H4 blocks) (rs @ [Ref block]) (bs @ [b])"
      by (simp add: list_all2_appendI)
    have tk4: "take (length H0) ?H4 = H0" using tk lb by simp
    have g4: "get_array ?H4 blocks = Some (rs @ [Ref block])"
      using bl by (simp add: get_array_update)
    from sort_store_sim[OF tk4 g4 rel lb(1)] False mem(1) lm rs(1) show ?thesis
      by (auto simp: closed_def push_Some)
  qed
qed

lemma groupByTimeSlots_store_unfold:
  "get_array H a = Some elems \<Longrightarrow>
   groupByTimeSlots_store H a =
     (case loop_store (Suc (length elems)) 0 (H @ [Array []] @ [Array []]) a (length H)
             (Suc (length H)) of
        None \<Rightarrow> None
      | Some (H3, Inl e) \<Rightarrow> Some (H3, Inl e)
      | Some (H3, Inr block') \<Rightarrow>
          (case get_array H3 block' of
             None \<Rightarrow> None
           | Some members \<Rightarrow>
               if length members > 0 then
                 (case push H3 (length H) (Ref block') of
                    None \<Rightarrow> None
                  | Some H4 \<Rightarrow> sort_store H4 (length H))
               else sort_store H3 (length H)))"
  by (simp add: groupByTimeSlots_store_def alloc_def del: loop_store.simps)

text \<open>
  Claim C10. \<^verbatim>\<open>groupByTimeSlots\<close> does not mutate its input. Run on a store \<open>H\<close>
  whose object at \<open>hourlyData\<close> is an array of samples (or \<^verbatim>\<open>undefined\<close>
  elements), the call ends, by returning an array or by throwing, in a store \<open>H'\<close> that
  extends \<open>H\<close>: every object of \<open>H\<close>, so the input array and every sample, is in \<open>H'\<close>
  what it was in \<open>H\<close>. The array it returns is a new one (its address is not an address
  of \<open>H\<close>), and read from \<open>H'\<close> it holds the windows that the function on values
  returns; when the call throws, so does the function on values.
\<close>

theorem input_not_mutated:
  assumes "wf_input H hourlyData"
  shows "\<exists>H' r. groupByTimeSlots_store H hourlyData = Some (H', r) \<and>
    take (length H) H' = H \<and> (\<forall>p < length H. H' ! p = H ! p) \<and>
    input_of H' hourlyData = input_of H hourlyData \<and>
    (case r of
       Inl e \<Rightarrow> groupByTimeSlots (input_of H hourlyData) = Inl e
     | Inr res \<Rightarrow> length H \<le> res \<and>
         groupByTimeSlots (input_of H hourlyData) = Inr (blocks_of H' res))"
proof -
  let ?hs = "input_of H hourlyData"
  from wf_input_repr[OF assms] obtain elems where arr: "get_array H hourlyData = Some elems"
    and el: "list_all2 (elem_repr H) elems ?hs" by blast
  note unf = groupByTimeSlots_store_unfold[OF arr]
  have sim: "case groupByTimeSlots_loop (drop 0 ?hs) [] [] of
       Inl e \<Rightarrow> \<exists>H'. loop_store (Suc (length elems)) 0 (H @ [Array []] @ [Array []]) hourlyData
                    (length H) (Suc (length H)) = Some (H', Inl e) \<and> take (length H) H' = H
     | Inr (bs', b') \<Rightarrow> \<exists>H' block'. loop_store (Suc (length elems)) 0
                    (H @ [Array []] @ [Array []]) hourlyData (length H) (Suc (length H))
                      = Some (H', Inr block') \<and>
                  state_repr H H' (length H) block' bs' b'"
    by (rule loop_store_sim[OF arr el state_repr_init]) simp_all
  have main: "\<exists>H' r. groupByTimeSlots_store H hourlyData = Some (H', r) \<and>
    take (length H) H' = H \<and>
    (case r of
       Inl e \<Rightarrow> groupByTimeSlots ?hs = Inl e
     | Inr res \<Rightarrow> length H \<le> res \<and> groupByTimeSlots ?hs = Inr (blocks_of H' res))"
  proof (cases "groupByTimeSlots_loop ?hs [] []")
    case (Inl e)
    with sim obtain H3 where "loop_store (Suc (length elems)) 0 (H @ [Array []] @ [Array []])
        hourlyData (length H) (Suc (length H)) = Some (H3, Inl e)" "take (length H) H3 = H"
      by auto
    moreover from Inl have "groupByTimeSlots ?hs = Inl e" by (simp add: groupByTimeSlots_def)
    ultimately show ?thesis by (simp add: unf)
  next
    case (Inr res)
    obtain bs' b' where res: "res = (bs', b')" by (cases res)
    with Inr sim obtain H3 block' where
      run: "loop_store (Suc (length elems)) 0 (H @ [Array []] @ [Array []])
        hourlyData (length H) (Suc (length H)) = Some (H3, Inr block')"
      and st: "state_repr H H3 (length H) block' bs' b'"
      by auto
    from Inr res have pure: "groupByTimeSlots_loop ?hs [] [] = Inr (bs', b')" by simp
    from loop_inv_run[OF pure] obtain xs where "loop_inv (qualifying xs) bs' b'" by blast
    from closed_inv(2)[OF this] have ne: "[] \<notin> set (closed bs' b')" .
    from finish_store_sim[OF st ne] obtain H' where fin: "take (length H) H' = H"
      "(case get_array H3 block' of
        None \<Rightarrow> None
      | Some members \<Rightarrow>
          if length members > 0 then
            (case push H3 (length H) (Ref block') of None \<Rightarrow> None
             | Some H4 \<Rightarrow> sort_store H4 (length H))
          else sort_store H3 (length H)) = Some (H', Inr (length H))"
      "blocks_of H' (length H) = Array_sort compare_blocks (closed bs' b')"
      by blast
    have "groupByTimeSlots ?hs = Inr (Array_sort compare_blocks (closed bs' b'))"
      using groupByTimeSlots_closed[OF pure] sort_blocks_nonempty[OF ne] by simp
    with fin run show ?thesis by (simp add: unf)
  qed
  then obtain H' r where r: "groupByTimeSlots_store H hourlyData = Some (H', r)"
    "take (length H) H' = H"
    "case r of Inl e \<Rightarrow> groupByTimeSlots ?hs = Inl e
     | Inr res \<Rightarrow> length H \<le> res \<and> groupByTimeSlots ?hs = Inr (blocks_of H' res)"
    by blast
  have nth: "\<forall>p < length H. H' ! p = H ! p"
    using take_nth_eq[OF r(2)] by blast
  have "sample_of H' v = sample_of H v" if "v \<in> set elems" for v
  proof -
    from that el obtain h where e: "elem_repr H v h"
      by (auto simp: in_set_conv_nth list_all2_conv_all_nth)
    have tkH: "take (length H) H = H" by simp
    from get_sample_elem[OF r(2) e] get_sample_elem[OF tkH e] show ?thesis
      by (simp add: sample_of_def)
  qed
  then have same: "input_of H' hourlyData = ?hs"
    by (simp add: input_of_def get_array_take[OF r(2) arr] arr cong: map_cong)
  from r nth same show ?thesis by blast
qed

lemma example_store_run:
  "groupByTimeSlots_store example_store 5 =
     Some (example_store @
             [Array [Ref 7, Ref 8], Array [Ref 0, Ref 1, Ref 3], Array [Ref 4]], Inr 6)"
  by code_simp

lemma example_store_wf: "wf_input example_store 5"
  by code_simp

theorem input_not_mutated_witness:
  "wf_input example_store 5 \<and>
   (\<exists>H' r. groupByTimeSlots_store example_store 5 = Some (H', r) \<and>
      H' = example_store @ [Array [Ref 7, Ref 8], Array [Ref 0, Ref 1, Ref 3], Array [Ref 4]] \<and>
      r = Inr 6 \<and>
      take (length example_store) H' = example_store \<and>
      input_of H' 5 = map Some dry_third_hour \<and>
      input_of example_store 5 = map Some dry_third_hour \<and>
      groupByTimeSlots (map Some dry_third_hour) = Inr (blocks_of H' 6))"
proof -
  from input_not_mutated[OF example_store_wf] obtain H' r where
    r: "groupByTimeSlots_store example_store 5 = Some (H', r)"
      "take (length example_store) H' = example_store"
      "input_of H' 5 = input_of example_store 5"
      "case r of
         Inl e \<Rightarrow> groupByTimeSlots (input_of example_store 5) = Inl e
       | Inr res \<Rightarrow> length example_store \<le> res \<and>
           groupByTimeSlots (input_of example_store 5) = Inr (blocks_of H' res)"
    by blast
  from r(1) example_store_run have eq:
    "H' = example_store @ [Array [Ref 7, Ref 8], Array [Ref 0, Ref 1, Ref 3], Array [Ref 4]]"
    "r = Inr 6" by simp_all
  have inp: "input_of example_store 5 = map Some dry_third_hour"
    by (simp add: input_of_def get_array_def sample_of_def get_sample_def example_store_def
        dry_third_hour_def)
  from r(4) eq(2) inp have "groupByTimeSlots (map Some dry_third_hour) = Inr (blocks_of H' 6)"
    by simp
  with r eq inp example_store_wf show ?thesis by simp
qed

end
